theory Spec2Isabelle
  imports Main
begin

section \<open>The geocoding pipeline of scripts/geocode-servers.mjs\<close>

text \<open>
  The script reads a catalog \<open>{country: [city, ...]}\<close> and a cache
  \<open>{"Country::City": {lat, lng}}\<close>, builds a work list, runs one asynchronous task
  per work item through a queue of bounded concurrency, and writes the cache and the
  geocoded catalog.

  A JavaScript string is modelled as a \<^typ>\<open>string\<close> whose characters stand for the
  code units \<open>0..255\<close>; the white space of \<open>\s\<close> and of \<open>trim\<close> above U+00FF is
  outside this type. A JavaScript number is a type parameter \<open>'n\<close>: the script only
  copies the coordinates it receives.
\<close>

subsection \<open>Names and keys\<close>

text \<open>The white space of \<open>\s\<close> and of \<open>String.prototype.trim\<close>: TAB, LF, VT, FF, CR,
  SP and NBSP.\<close>

definition isSpace :: "char \<Rightarrow> bool" where
  "isSpace c = (c \<in> set [CHR 0x09, CHR 0x0A, CHR 0x0B, CHR 0x0C, CHR 0x0D, CHR 0x20, CHR 0xA0])"

text \<open>The literal \<open>\(virtual\)\<close> under the flag \<open>i\<close>: every letter in either case.\<close>

definition virtualPat :: "string list" where
  "virtualPat = [''('', ''vV'', ''iI'', ''rR'', ''tT'', ''uU'', ''aA'', ''lL'', '')'']"

text \<open>\<open>matchesHere s\<close>: the whole of \<open>s\<close> matches \<open>\s+\(virtual\)\s*\<close>, that is, the
  pattern \<open>/\s+\(virtual\)\s*$/i\<close> matches at the first position of \<open>s\<close>. The greedy
  \<open>\s+\<close> has to take all the leading white space, since \<open>(\<close> must follow it.\<close>

definition matchesHere :: "string \<Rightarrow> bool" where
  "matchesHere s =
     (let a = dropWhile isSpace s in
        length a < length s \<and>
        list_all2 (\<lambda>c alts. c \<in> set alts) (take 9 a) virtualPat \<and>
        list_all isSpace (drop 9 a))"

text \<open>\<open>s.replace(/\s+\(virtual\)\s*$/i, "")\<close>: the leftmost match runs to the end of the
  string, so the replacement keeps what stands before it.\<close>

fun stripVirtual :: "string \<Rightarrow> string" where
  "stripVirtual [] = []"
| "stripVirtual (c # cs) = (if matchesHere (c # cs) then [] else c # stripVirtual cs)"

definition trim :: "string \<Rightarrow> string" where
  "trim s = rev (dropWhile isSpace (rev (dropWhile isSpace s)))"

definition normalizeName :: "string \<Rightarrow> string" where
  "normalizeName s = trim (stripVirtual s)"

definition key :: "string \<Rightarrow> string \<Rightarrow> string" where
  "key country' city' = country' @ ''::'' @ city'"

subsection \<open>Data\<close>

text \<open>A cache record \<open>{lat, lng}\<close>, a provider result \<open>{lat, lng, provider}\<close>, an entry
  \<open>{name, lat, lng}\<close> of the output catalog and a work item \<open>{country, city, k}\<close>.\<close>

record 'n coord =
  lat :: 'n
  lng :: 'n

record 'n geo = "'n coord" +
  provider :: string

record 'n place = "'n coord" +
  name :: string

record workitem =
  country :: string
  city :: string
  k :: string

text \<open>\<open>Object.entries(raw)\<close>: the countries in the order of the object, each with its
  array of cities; \<open>None\<close> is a value that \<open>cities || []\<close> replaces by the empty
  array (\<open>null\<close>).\<close>

type_synonym catalog = "(string \<times> string list option) list"

type_synonym 'n cachemap = "string \<rightharpoonup> 'n coord"

text \<open>What reading and parsing a JSON file gives: \<open>fs.readFile\<close> rejects, \<open>JSON.parse\<close>
  throws, or a value comes back.\<close>

datatype 'a diskfile = Unreadable | Malformed | Parsed 'a

definition loadJSON :: "'a diskfile \<Rightarrow> 'a \<Rightarrow> 'a" where
  "loadJSON f fallback = (case f of Unreadable \<Rightarrow> fallback | Malformed \<Rightarrow> fallback | Parsed v \<Rightarrow> v)"

subsection \<open>The output object\<close>

text \<open>\<open>out\<close> is a plain object used as a dictionary. Its own properties are the map
  \<open>own\<close>. An assignment to the property \<open>__proto__\<close> creates no own property: it runs
  the setter of \<open>Object.prototype\<close> and makes the assigned array the prototype of
  \<open>out\<close>, which is \<open>proto\<close>; \<open>JSON.stringify\<close> writes the own properties only.\<close>

record 'n outobj =
  own :: "string \<rightharpoonup> 'n place list"
  proto :: "'n place list option"

definition emptyOut :: "'n outobj" where
  "emptyOut = \<lparr>own = Map.empty, proto = None\<rparr>"

definition outSet :: "string \<Rightarrow> 'n place list \<Rightarrow> 'n outobj \<Rightarrow> 'n outobj" where
  "outSet c v ob = (if c = ''__proto__'' then ob\<lparr>proto := Some v\<rparr> else ob\<lparr>own := (own ob)(c \<mapsto> v)\<rparr>)"

text \<open>\<open>out[c]\<close> where it is an array; \<open>None\<close> where \<open>out[c]\<close> is \<open>undefined\<close> or an
  inherited value without a method \<open>push\<close>.\<close>

definition outGet :: "string \<Rightarrow> 'n outobj \<Rightarrow> 'n place list option" where
  "outGet c ob = (if c = ''__proto__'' then proto ob else own ob c)"

text \<open>\<open>out[c].push(e)\<close>; \<open>None\<close> is the TypeError of a missing array.\<close>

definition outPush :: "string \<Rightarrow> 'n place \<Rightarrow> 'n outobj \<Rightarrow> 'n outobj option" where
  "outPush c e ob = (case outGet c ob of None \<Rightarrow> None | Some xs \<Rightarrow> Some (outSet c (xs @ [e]) ob))"

text \<open>\<open>{ name: city, ...cache[k] }\<close>\<close>

definition entry :: "string \<Rightarrow> 'n coord \<Rightarrow> 'n place" where
  "entry city' cv = \<lparr>lat = lat cv, lng = lng cv, name = city'\<rparr>"

subsection \<open>The work list\<close>

definition pushCities :: "string \<Rightarrow> string list \<Rightarrow> workitem list \<Rightarrow> workitem list" where
  "pushCities country' cities work =
     fold (\<lambda>cityRaw w.
             let city' = normalizeName cityRaw; k' = key country' city'
             in w @ [\<lparr>country = country', city = city', k = k'\<rparr>])
          cities work"

definition buildStep :: "string \<times> string list option \<Rightarrow> 'n outobj \<times> workitem list \<Rightarrow> 'n outobj \<times> workitem list" where
  "buildStep e acc =
     (case e of (countryRaw, cities) \<Rightarrow>
      case acc of (out', work) \<Rightarrow>
        let country' = normalizeName countryRaw
        in (outSet country' [] out',
            pushCities country' (case cities of None \<Rightarrow> [] | Some cs \<Rightarrow> cs) work))"

definition build :: "catalog \<Rightarrow> 'n outobj \<times> workitem list" where
  "build raw = fold buildStep raw (emptyOut, [])"

definition worklist :: "catalog \<Rightarrow> workitem list" where
  "worklist raw = snd (build raw :: unit outobj \<times> workitem list)"

subsection \<open>Providers\<close>

record config =
  MAPTILER_KEY :: string

definition keyed :: "config \<Rightarrow> bool" where
  "keyed cfg = (MAPTILER_KEY cfg \<noteq> [])"

definition concurrency :: "config \<Rightarrow> nat" where
  "concurrency cfg = (if keyed cfg then 6 else 1)"

definition ISO_HINT :: "(string \<times> string) list" where
  "ISO_HINT =
     [(''United States'', ''US''), (''United Kingdom'', ''GB''), (''South Korea'', ''KR''),
      (''North Macedonia'', ''MK''), (''Czech Republic'', ''CZ''),
      (''United Arab Emirates'', ''AE''), (''Vietnam'', ''VN''), (''Laos'', ''LA''),
      (''Myanmar'', ''MM''), (''Taiwan'', ''TW''), (''Hong Kong'', ''HK'')]"

text \<open>A provider call: \<open>geocodeMapTiler(q, country)\<close> with the ISO code it sends, if
  any, or \<open>geocodeNominatim(q)\<close>.\<close>

datatype request = MapTiler string "string option" | Nominatim string

fun query :: "request \<Rightarrow> string" where
  "query (MapTiler q hint) = q"
| "query (Nominatim q) = q"

text \<open>What a provider call does: it returns a result, returns \<open>null\<close>, or throws (a
  status that is not ok, a transport failure, a body that is not the expected JSON).\<close>

datatype 'n response = Found "'n geo" | Absent | Failed

fun resOf :: "'n response \<Rightarrow> 'n geo option" where
  "resOf (Found g) = Some g"
| "resOf Absent = None"
| "resOf Failed = None"

definition primaryRequest :: "config \<Rightarrow> workitem \<Rightarrow> request" where
  "primaryRequest cfg w =
     (if keyed cfg then MapTiler (city w @ '', '' @ country w) (map_of ISO_HINT (country w))
      else Nominatim (city w @ '', '' @ country w))"

definition fallbackRequest :: "config \<Rightarrow> workitem \<Rightarrow> request" where
  "fallbackRequest cfg w =
     (if keyed cfg then MapTiler (city w) (map_of ISO_HINT (country w))
      else Nominatim (city w))"

subsection \<open>The tasks and the queue\<close>

text \<open>
  \<open>tasks = work.map(item => queue.add(async () => ...))\<close>: task \<open>i\<close> belongs to
  \<open>work[i]\<close>. A task is an asynchronous function; between two \<open>await\<close>s it runs
  without interruption. Its phase says where it is suspended:
  \<^item> \<open>Queued\<close>: the queue has not called it yet;
  \<^item> \<open>AwaitPrimary\<close>, \<open>AwaitFallback\<close>: at \<open>await geocode...(...)\<close> of the first or
    of the second \<open>try\<close> block;
  \<^item> \<open>SleepPrimary res\<close>, \<open>SleepFallback res\<close>: at \<open>await sleep(1100)\<close> after that
    call, holding the local variable \<open>res\<close>;
  \<^item> \<open>Done\<close>: it has returned.
\<close>

datatype 'n phase =
  Queued | AwaitPrimary | SleepPrimary "'n geo option"
  | AwaitFallback | SleepFallback "'n geo option" | Done

text \<open>What a task does, written to a log in the order in which it happens: the cache
  hit with the record it found, a provider call, what the call gave, a \<open>sleep(ms)\<close>,
  the write of a cache record with its entry in the output, and \<open>misses++\<close>.\<close>

datatype 'n action =
  Hit "'n coord" | Call request | Ret "'n response" | Sleep nat | Store "'n coord" | Miss

record 'n state =
  cache :: "'n cachemap"
  out :: "'n outobj"
  processed :: nat
  hits :: nat
  misses :: nat
  started :: nat
  tasks :: "'n phase list"
  trace :: "(nat \<times> 'n action) list"

text \<open>What the surroundings of the tasks do: the queue calls the next task, the call a
  task awaits settles, the timer a task awaits fires.\<close>

datatype 'n event = Start | Reply nat "'n response" | Wake nat

text \<open>\<open>Refused\<close>: the event cannot happen in this state. \<open>TypeError\<close>: the script
  throws. \<open>Unfinished\<close>: the events end before every task has returned.\<close>

datatype error = Refused | TypeError | Unfinished

definition isRunning :: "'n phase \<Rightarrow> bool" where
  "isRunning p = (p \<noteq> Queued \<and> p \<noteq> Done)"

definition inflight :: "'n state \<Rightarrow> nat" where
  "inflight s = length (filter isRunning (tasks s))"

text \<open>\<open>{ lat: res.lat, lng: res.lng }\<close>\<close>

definition coordOf :: "'n geo \<Rightarrow> 'n coord" where
  "coordOf r = \<lparr>lat = lat r, lng = lng r\<rparr>"

text \<open>The end of a task: \<open>if (res) { cache[k] = ...; out[country].push(...) } else
  misses++; processed++\<close>.\<close>

definition finish :: "workitem \<Rightarrow> nat \<Rightarrow> 'n geo option \<Rightarrow> 'n state \<Rightarrow> error + 'n state" where
  "finish w i res s =
     (case res of
        Some r \<Rightarrow>
          let cv = coordOf r;
              s1 = s\<lparr>cache := (cache s)(k w \<mapsto> cv)\<rparr>
          in (case outPush (country w) (entry (city w) cv) (out s1) of
                None \<Rightarrow> Inl TypeError
              | Some ob \<Rightarrow>
                  Inr (s1\<lparr>out := ob, processed := processed s1 + 1,
                          tasks := (tasks s1)[i := Done],
                          trace := trace s1 @ [(i, Store cv)]\<rparr>))
      | None \<Rightarrow>
          Inr (s\<lparr>misses := misses s + 1, processed := processed s + 1,
                 tasks := (tasks s)[i := Done],
                 trace := trace s @ [(i, Miss)]\<rparr>))"

text \<open>The start of a task: the cache hit path, or the first provider call.\<close>

definition taskStart :: "config \<Rightarrow> workitem \<Rightarrow> nat \<Rightarrow> 'n state \<Rightarrow> error + 'n state" where
  "taskStart cfg w i s =
     (case cache s (k w) of
        Some cv \<Rightarrow>
          (case outPush (country w) (entry (city w) cv) (out s) of
             None \<Rightarrow> Inl TypeError
           | Some ob \<Rightarrow>
               Inr (s\<lparr>out := ob, hits := hits s + 1, processed := processed s + 1,
                      tasks := (tasks s)[i := Done],
                      trace := trace s @ [(i, Hit cv)]\<rparr>))
      | None \<Rightarrow>
          Inr (s\<lparr>tasks := (tasks s)[i := AwaitPrimary],
                 trace := trace s @ [(i, Call (primaryRequest cfg w))]\<rparr>))"

text \<open>\<open>if (!res) { try { ... geocode...(city) ...\<close>\<close>

definition issueFallback :: "config \<Rightarrow> workitem \<Rightarrow> nat \<Rightarrow> 'n state \<Rightarrow> 'n state" where
  "issueFallback cfg w i s =
     s\<lparr>tasks := (tasks s)[i := AwaitFallback],
       trace := trace s @ [(i, Call (fallbackRequest cfg w))]\<rparr>"

text \<open>The first call settles. With a key the task goes on at once. Without one,
  \<open>await sleep(1100)\<close> follows the call in the \<open>try\<close> block, so a call that throws
  skips it.\<close>

definition afterPrimary :: "config \<Rightarrow> workitem \<Rightarrow> nat \<Rightarrow> 'n response \<Rightarrow> 'n state \<Rightarrow> error + 'n state" where
  "afterPrimary cfg w i r s =
     (let s1 = s\<lparr>trace := trace s @ [(i, Ret r)]\<rparr> in
      if keyed cfg then
        (case resOf r of
           Some g \<Rightarrow> finish w i (Some g) s1
         | None \<Rightarrow> Inr (issueFallback cfg w i s1))
      else
        (case r of
           Failed \<Rightarrow> Inr (issueFallback cfg w i s1)
         | _ \<Rightarrow> Inr (s1\<lparr>tasks := (tasks s1)[i := SleepPrimary (resOf r)],
                         trace := trace s1 @ [(i, Sleep 1100)]\<rparr>)))"

definition wakePrimary :: "config \<Rightarrow> workitem \<Rightarrow> nat \<Rightarrow> 'n geo option \<Rightarrow> 'n state \<Rightarrow> error + 'n state" where
  "wakePrimary cfg w i res s =
     (case res of
        Some g \<Rightarrow> finish w i (Some g) s
      | None \<Rightarrow> Inr (issueFallback cfg w i s))"

text \<open>The second call settles.\<close>

definition afterFallback :: "config \<Rightarrow> workitem \<Rightarrow> nat \<Rightarrow> 'n response \<Rightarrow> 'n state \<Rightarrow> error + 'n state" where
  "afterFallback cfg w i r s =
     (let s1 = s\<lparr>trace := trace s @ [(i, Ret r)]\<rparr> in
      if keyed cfg then finish w i (resOf r) s1
      else
        (case r of
           Failed \<Rightarrow> finish w i None s1
         | _ \<Rightarrow> Inr (s1\<lparr>tasks := (tasks s1)[i := SleepFallback (resOf r)],
                         trace := trace s1 @ [(i, Sleep 1100)]\<rparr>)))"

text \<open>One event. The queue calls the tasks in the order of the work list, and only
  while fewer than \<open>concurrency\<close> of them are running.\<close>

fun step :: "config \<Rightarrow> workitem list \<Rightarrow> 'n event \<Rightarrow> 'n state \<Rightarrow> error + 'n state" where
  "step cfg work Start s =
     (if started s < length work \<and> inflight s < concurrency cfg
      then taskStart cfg (work ! started s) (started s) (s\<lparr>started := started s + 1\<rparr>)
      else Inl Refused)"
| "step cfg work (Reply i r) s =
     (if i < length work \<and> i < length (tasks s) then
        (case tasks s ! i of
           AwaitPrimary \<Rightarrow> afterPrimary cfg (work ! i) i r s
         | AwaitFallback \<Rightarrow> afterFallback cfg (work ! i) i r s
         | _ \<Rightarrow> Inl Refused)
      else Inl Refused)"
| "step cfg work (Wake i) s =
     (if i < length work \<and> i < length (tasks s) then
        (case tasks s ! i of
           SleepPrimary res \<Rightarrow> wakePrimary cfg (work ! i) i res s
         | SleepFallback res \<Rightarrow> finish (work ! i) i res s
         | _ \<Rightarrow> Inl Refused)
      else Inl Refused)"

fun exec :: "config \<Rightarrow> workitem list \<Rightarrow> 'n event list \<Rightarrow> 'n state \<Rightarrow> error + 'n state" where
  "exec cfg work [] s = Inr s"
| "exec cfg work (e # es) s =
     (case step cfg work e s of Inl x \<Rightarrow> Inl x | Inr s' \<Rightarrow> exec cfg work es s')"

definition init :: "'n cachemap \<Rightarrow> 'n outobj \<Rightarrow> workitem list \<Rightarrow> 'n state" where
  "init cache0 out0 work =
     \<lparr>cache = cache0, out = out0, processed = 0, hits = 0, misses = 0, started = 0,
      tasks = replicate (length work) Queued, trace = []\<rparr>"

text \<open>The state after the events \<open>evs\<close>, from the catalog and the loaded cache.\<close>

definition runTasks :: "config \<Rightarrow> catalog \<Rightarrow> 'n cachemap \<Rightarrow> 'n event list \<Rightarrow> error + 'n state" where
  "runTasks cfg raw cache0 evs =
     (case build raw of (out0, work) \<Rightarrow> exec cfg work evs (init cache0 out0 work))"

definition allDone :: "'n state \<Rightarrow> bool" where
  "allDone s = list_all (\<lambda>p. p = Done) (tasks s)"

text \<open>The two files written after \<open>await Promise.all(tasks)\<close>.\<close>

record 'n written =
  cacheFile :: "'n cachemap"
  outputFile :: "string \<rightharpoonup> 'n place list"

definition persist :: "'n state \<Rightarrow> 'n written" where
  "persist s = \<lparr>cacheFile = cache s, outputFile = own (out s)\<rparr>"

definition main :: "config \<Rightarrow> catalog diskfile \<Rightarrow> 'n cachemap diskfile \<Rightarrow> 'n event list \<Rightarrow> error + 'n written" where
  "main cfg input cached evs =
     (let raw = loadJSON input [];
          cache0 = loadJSON cached Map.empty
      in case runTasks cfg raw cache0 evs of
           Inl x \<Rightarrow> Inl x
         | Inr s \<Rightarrow> if allDone s then Inr (persist s) else Inl Unfinished)"

text \<open>What task \<open>i\<close> did, its provider calls and what they gave.\<close>

definition tlog :: "nat \<Rightarrow> (nat \<times> 'n action) list \<Rightarrow> 'n action list" where
  "tlog i tr = map snd (filter (\<lambda>e. fst e = i) tr)"

fun callOf :: "'n action \<Rightarrow> request option" where
  "callOf (Call q) = Some q"
| "callOf a = None"

fun retOf :: "'n action \<Rightarrow> 'n response option" where
  "retOf (Ret r) = Some r"
| "retOf a = None"

definition calls :: "nat \<Rightarrow> (nat \<times> 'n action) list \<Rightarrow> request list" where
  "calls i tr = List.map_filter callOf (tlog i tr)"


subsection \<open>The steps of a task, one by one\<close>

text \<open>For the proofs, the same task as a transition function: from the phase of a task
  and what resumes it (the queue with the result of the cache look-up, the settled
  call, the timer) to what the task logs and the phase it reaches. Lemma
  \<open>step_summary\<close> below shows that \<open>step\<close> does exactly this.\<close>

datatype 'n resume = Go "'n coord option" | Got "'n response" | Woke

fun ending :: "'n geo option \<Rightarrow> 'n action list" where
  "ending (Some g) = [Store (coordOf g)]"
| "ending None = [Miss]"

fun local :: "config \<Rightarrow> workitem \<Rightarrow> 'n phase \<Rightarrow> 'n resume \<Rightarrow> ('n action list \<times> 'n phase) option" where
  "local cfg w Queued (Go (Some cv)) = Some ([Hit cv], Done)"
| "local cfg w Queued (Go None) = Some ([Call (primaryRequest cfg w)], AwaitPrimary)"
| "local cfg w AwaitPrimary (Got r) =
     Some (if keyed cfg \<and> resOf r \<noteq> None then (Ret r # ending (resOf r), Done)
           else if keyed cfg \<or> r = Failed then ([Ret r, Call (fallbackRequest cfg w)], AwaitFallback)
           else ([Ret r, Sleep 1100], SleepPrimary (resOf r)))"
| "local cfg w (SleepPrimary res) Woke =
     Some (if res \<noteq> None then (ending res, Done)
           else ([Call (fallbackRequest cfg w)], AwaitFallback))"
| "local cfg w AwaitFallback (Got r) =
     Some (if keyed cfg \<or> r = Failed then (Ret r # ending (resOf r), Done)
           else ([Ret r, Sleep 1100], SleepFallback (resOf r)))"
| "local cfg w (SleepFallback res) Woke = Some (ending res, Done)"
| "local cfg w p x = None"

text \<open>What a logged action does to the cache, the output and the counters.\<close>

fun emitOf :: "'n action \<Rightarrow> 'n coord option" where
  "emitOf (Hit cv) = Some cv"
| "emitOf (Store cv) = Some cv"
| "emitOf a = None"

fun storeOf :: "'n action \<Rightarrow> 'n coord option" where
  "storeOf (Store cv) = Some cv"
| "storeOf a = None"

definition pushOr :: "string \<Rightarrow> 'n place \<Rightarrow> 'n outobj \<Rightarrow> 'n outobj" where
  "pushOr c e ob = (case outPush c e ob of None \<Rightarrow> ob | Some ob' \<Rightarrow> ob')"

fun applyAct :: "workitem list \<Rightarrow> nat \<times> 'n action \<Rightarrow> 'n state \<Rightarrow> 'n state" where
  "applyAct work (i, Hit cv) s =
     s\<lparr>out := pushOr (country (work ! i)) (entry (city (work ! i)) cv) (out s),
       hits := hits s + 1, processed := processed s + 1\<rparr>"
| "applyAct work (i, Store cv) s =
     s\<lparr>cache := (cache s)(k (work ! i) \<mapsto> cv),
       out := pushOr (country (work ! i)) (entry (city (work ! i)) cv) (out s),
       processed := processed s + 1\<rparr>"
| "applyAct work (i, Miss) s = s\<lparr>misses := misses s + 1, processed := processed s + 1\<rparr>"
| "applyAct work (i, a) s = s"

definition resumed :: "workitem list \<Rightarrow> 'n event \<Rightarrow> 'n state \<Rightarrow> nat \<times> 'n phase \<times> 'n resume" where
  "resumed work e s =
     (case e of
        Start \<Rightarrow> (started s, Queued, Go (cache s (k (work ! started s))))
      | Reply i r \<Rightarrow> (i, tasks s ! i, Got r)
      | Wake i \<Rightarrow> (i, tasks s ! i, Woke))"

text \<open>The state after task \<open>i\<close> has logged the actions \<open>as\<close> and reached phase \<open>p'\<close>.\<close>

definition after :: "workitem list \<Rightarrow> nat \<Rightarrow> 'n action list \<Rightarrow> 'n phase \<Rightarrow> nat \<Rightarrow> 'n state \<Rightarrow> 'n state" where
  "after work i as p' n s =
     (fold (applyAct work) (map (Pair i) as) s)
       \<lparr>started := n, tasks := (tasks s)[i := p'], trace := trace s @ map (Pair i) as\<rparr>"

definition pushes :: "'n action list \<Rightarrow> bool" where
  "pushes as = (\<exists>a \<in> set as. emitOf a \<noteq> None)"

subsection \<open>Invariants of a run\<close>

text \<open>The tasks are those of the work list, and the queue has called exactly the first
  \<open>started\<close> of them.\<close>

definition shape :: "workitem list \<Rightarrow> 'n state \<Rightarrow> bool" where
  "shape work s =
     (length (tasks s) = length work \<and> started s \<le> length work \<and>
      (\<forall>i < length work. (tasks s ! i = Queued) = (started s \<le> i)))"

text \<open>Every country of the work list has its array in \<open>out\<close>.\<close>

definition allocated :: "workitem list \<Rightarrow> 'n state \<Rightarrow> bool" where
  "allocated work s = (\<forall>w \<in> set work. outGet (country w) (out s) \<noteq> None)"



definition sound :: "workitem list \<Rightarrow> 'n state \<Rightarrow> bool" where
  "sound work s = (shape work s \<and> allocated work s)"

subsection \<open>The enforced delay of a run\<close>

fun sleepOf :: "'n action \<Rightarrow> nat" where
  "sleepOf (Sleep ms) = ms"
| "sleepOf a = 0"

text \<open>The milliseconds the tasks of a run have spent in \<open>sleep\<close>.\<close>

definition enforcedDelay :: "(nat \<times> 'n action) list \<Rightarrow> nat" where
  "enforcedDelay tr = sum_list (map (sleepOf \<circ> snd) tr)"

text \<open>The provider calls of a run, of all tasks, in the order in which they are made.\<close>

definition allCalls :: "(nat \<times> 'n action) list \<Rightarrow> request list" where
  "allCalls tr = List.map_filter (callOf \<circ> snd) tr"

subsection \<open>The log of one task\<close>

text \<open>The \<open>sleep\<close> that follows a settled call: none with a key, none after a call
  that throws.\<close>

definition nap :: "config \<Rightarrow> 'n response \<Rightarrow> 'n action list" where
  "nap cfg r = (if keyed cfg \<or> r = Failed then [] else [Sleep 1100])"




subsection \<open>The state as a function of the log\<close>

definition shared :: "'n state \<Rightarrow> 'n cachemap \<times> 'n outobj \<times> nat \<times> nat \<times> nat" where
  "shared s = (cache s, out s, hits s, misses s, processed s)"

definition replayed :: "workitem list \<Rightarrow> 'n state \<Rightarrow> 'n state \<Rightarrow> bool" where
  "replayed work s0 s = (shared s = shared (fold (applyAct work) (trace s) s0))"

text \<open>The entries that the logged actions append to the array of country \<open>c\<close>.\<close>

definition emitted :: "workitem list \<Rightarrow> string \<Rightarrow> (nat \<times> 'n action) list \<Rightarrow> 'n place list" where
  "emitted work c tr =
     List.map_filter
       (\<lambda>e. if country (work ! fst e) = c
            then map_option (entry (city (work ! fst e))) (emitOf (snd e)) else None) tr"


text \<open>The records of the loaded cache stay, and a task whose key is among them is
  waiting in the queue or has returned after the cache hit.\<close>

definition preloaded :: "workitem list \<Rightarrow> 'n cachemap \<Rightarrow> 'n state \<Rightarrow> bool" where
  "preloaded work cache0 s =
     ((\<forall>key' cv. cache0 key' = Some cv \<longrightarrow> cache s key' = Some cv) \<and>
      (\<forall>i < length work. \<forall>cv. cache0 (k (work ! i)) = Some cv \<longrightarrow>
         (tasks s ! i = Queued \<and> tlog i (trace s) = []) \<or>
         (tasks s ! i = Done \<and> tlog i (trace s) = [Hit cv])))"




subsection \<open>Invariants of the cache\<close>

text \<open>With pairwise different keys: while a task whose key was not loaded waits in the
  queue, the cache has no record under its key; and \<open>hits\<close> counts the started tasks
  whose key was loaded.\<close>

definition fresh :: "workitem list \<Rightarrow> 'n cachemap \<Rightarrow> 'n state \<Rightarrow> bool" where
  "fresh work cache0 s =
     (\<forall>i < length work. cache0 (k (work ! i)) = None \<and> tasks s ! i = Queued \<longrightarrow>
        cache s (k (work ! i)) = None)"

definition hitcount :: "workitem list \<Rightarrow> 'n cachemap \<Rightarrow> 'n state \<Rightarrow> bool" where
  "hitcount work cache0 s =
     (hits s = card {i. i < started s \<and> cache0 (k (work ! i)) \<noteq> None})"

text \<open>The queue never runs more tasks than its concurrency.\<close>

definition bounded :: "config \<Rightarrow> 'n state \<Rightarrow> bool" where
  "bounded cfg s = (inflight s \<le> concurrency cfg)"

text \<open>Without a key, or with pairwise different keys: a running task has no record
  under its key yet, and every entry of the output carries the coordinates that the
  cache holds under the key of its work item.\<close>

definition pending :: "workitem list \<Rightarrow> 'n state \<Rightarrow> bool" where
  "pending work s =
     (\<forall>j < length work. isRunning (tasks s ! j) \<longrightarrow> cache s (k (work ! j)) = None)"

definition agrees :: "workitem list \<Rightarrow> 'n state \<Rightarrow> bool" where
  "agrees work s =
     (\<forall>c xs e. outGet c (out s) = Some xs \<and> e \<in> set xs \<longrightarrow>
        (\<exists>i < length work. country (work ! i) = c \<and> name e = city (work ! i) \<and>
           cache s (k (work ! i)) = Some \<lparr>lat = lat e, lng = lng e\<rparr>))"

lemmas name_defs = normalizeName_def trim_def matchesHere_def isSpace_def virtualPat_def

lemma takeWhile_sep:
  "CHR '':'' \<notin> set c \<Longrightarrow> takeWhile (\<lambda>x. x \<noteq> CHR '':'') (c @ ''::'' @ y) = c"
  by (auto simp: takeWhile_tail takeWhile_eq_all_conv)

lemmas run_defs = runTasks_def build_def buildStep_def pushCities_def key_def
  emptyOut_def outSet_def outGet_def outPush_def entry_def init_def
  keyed_def concurrency_def inflight_def isRunning_def
  taskStart_def finish_def issueFallback_def afterPrimary_def wakePrimary_def afterFallback_def
  primaryRequest_def fallbackRequest_def Let_def



lemma pushOr_Some: "outPush c e ob = Some ob' \<Longrightarrow> pushOr c e ob = ob'"
  by (simp add: pushOr_def)

lemma outPush_Some_conv:
  "(outPush c e ob = Some ob') = (\<exists>xs. outGet c ob = Some xs \<and> ob' = outSet c (xs @ [e]) ob)"
  by (auto simp: outPush_def split: option.splits)

lemma applyAct_trace_upd:
  "applyAct work x (s\<lparr>trace := t\<rparr>) = (applyAct work x s)\<lparr>trace := t\<rparr>"
  by (cases "(work, x, s)" rule: applyAct.cases) simp_all

lemma fold_applyAct_trace_upd:
  "fold (applyAct work) xs (s\<lparr>trace := t\<rparr>) = (fold (applyAct work) xs s)\<lparr>trace := t\<rparr>"
  by (induction xs arbitrary: s) (simp_all add: applyAct_trace_upd)

lemma applyAct_frame [simp]:
  "trace (applyAct work x s) = trace s"
  "tasks (applyAct work x s) = tasks s"
  "started (applyAct work x s) = started s"
  by (cases "(work, x, s)" rule: applyAct.cases; simp)+

lemma fold_applyAct_frame [simp]:
  "trace (fold (applyAct work) xs s) = trace s"
  "tasks (fold (applyAct work) xs s) = tasks s"
  "started (fold (applyAct work) xs s) = started s"
  by (induction xs arbitrary: s; simp)+

lemma finish_summary:
  assumes "finish w i res s = Inr s'" "w = work ! i"
  shows "s' = after work i (ending res) Done (started s) s
         \<and> (res \<noteq> None \<longrightarrow> outGet (country w) (out s) \<noteq> None)"
  using assms
  by (cases res) (auto simp: finish_def after_def Let_def pushOr_Some outPush_Some_conv split: option.splits)


lemma pushes_simps [simp]:
  "pushes [] = False"
  "pushes (Hit cv # as) = True"
  "pushes (Store cv # as) = True"
  "pushes (Call q # as) = pushes as"
  "pushes (Ret r # as) = pushes as"
  "pushes (Sleep n # as) = pushes as"
  "pushes (Miss # as) = pushes as"
  by (auto simp: pushes_def)

lemma pushes_ending [simp]: "pushes (ending res) = (res \<noteq> None)"
  by (cases res) simp_all

lemma start_summary:
  assumes "step cfg work Start s = Inr s'"
  shows "\<exists>as p'. started s < length work \<and> inflight s < concurrency cfg
       \<and> local cfg (work ! started s) Queued (Go (cache s (k (work ! started s)))) = Some (as, p')
       \<and> s' = after work (started s) as p' (started s + 1) s
       \<and> (pushes as \<longrightarrow> outGet (country (work ! started s)) (out s) \<noteq> None)"
  using assms
  by (auto simp: taskStart_def after_def pushOr_Some outPush_Some_conv split: if_splits option.splits)

lemma reply_summary:
  assumes "step cfg work (Reply i r) s = Inr s'"
  shows "\<exists>as p'. i < length work \<and> i < length (tasks s)
       \<and> local cfg (work ! i) (tasks s ! i) (Got r) = Some (as, p')
       \<and> s' = after work i as p' (started s) s
       \<and> (pushes as \<longrightarrow> outGet (country (work ! i)) (out s) \<noteq> None)"
proof -
  from assms have i: "i < length work" "i < length (tasks s)"
    by (auto split: if_splits)
  show ?thesis
  proof (cases "tasks s ! i")
    case AwaitPrimary
    show ?thesis
    proof (cases "keyed cfg")
      case True
      show ?thesis
      proof (cases "resOf r")
        case None
        with assms i AwaitPrimary True show ?thesis
          by (simp add: afterPrimary_def issueFallback_def after_def Let_def)
      next
        case (Some g)
        with assms i AwaitPrimary True
        have "finish (work ! i) i (Some g) (s\<lparr>trace := trace s @ [(i, Ret r)]\<rparr>) = Inr s'"
          by (simp add: afterPrimary_def Let_def)
        from finish_summary [OF this refl] Some i AwaitPrimary True show ?thesis
          by (simp add: after_def fold_applyAct_trace_upd)
      qed
    next
      case False
      with assms i AwaitPrimary show ?thesis
        by (cases r) (simp_all add: afterPrimary_def issueFallback_def after_def Let_def)
    qed
  next
    case AwaitFallback
    show ?thesis
    proof (cases "keyed cfg \<or> r = Failed")
      case True
      with assms i AwaitFallback
      have "finish (work ! i) i (resOf r) (s\<lparr>trace := trace s @ [(i, Ret r)]\<rparr>) = Inr s'"
        by (auto simp: afterFallback_def Let_def split: if_splits)
      from finish_summary [OF this refl] i AwaitFallback True show ?thesis
        by (auto simp: after_def fold_applyAct_trace_upd)
    next
      case False
      with assms i AwaitFallback show ?thesis
        by (cases r) (simp_all add: afterFallback_def after_def Let_def)
    qed
  qed (use assms i in simp_all)
qed

lemma wake_summary:
  assumes "step cfg work (Wake i) s = Inr s'"
  shows "\<exists>as p'. i < length work \<and> i < length (tasks s)
       \<and> local cfg (work ! i) (tasks s ! i) Woke = Some (as, p')
       \<and> s' = after work i as p' (started s) s
       \<and> (pushes as \<longrightarrow> outGet (country (work ! i)) (out s) \<noteq> None)"
proof -
  from assms have i: "i < length work" "i < length (tasks s)"
    by (auto split: if_splits)
  show ?thesis
  proof (cases "tasks s ! i")
    case (SleepPrimary res)
    show ?thesis
    proof (cases res)
      case None
      with assms i SleepPrimary show ?thesis
        by (simp add: wakePrimary_def issueFallback_def after_def)
    next
      case (Some g)
      with assms i SleepPrimary have "finish (work ! i) i (Some g) s = Inr s'"
        by (simp add: wakePrimary_def)
      from finish_summary [OF this refl] Some i SleepPrimary show ?thesis
        by simp
    qed
  next
    case (SleepFallback res)
    with assms i have "finish (work ! i) i res s = Inr s'"
      by simp
    from finish_summary [OF this refl] i SleepFallback show ?thesis
      by simp
  qed (use assms i in simp_all)
qed

lemma step_summary:
  assumes "step cfg work e s = Inr s'"
  obtains i p x as p' where
    "resumed work e s = (i, p, x)" "i < length work"
    "local cfg (work ! i) p x = Some (as, p')"
    "s' = after work i as p' (if e = Start then started s + 1 else started s) s"
    "pushes as \<Longrightarrow> outGet (country (work ! i)) (out s) \<noteq> None"
    "e = Start \<Longrightarrow> inflight s < concurrency cfg"
    "e \<noteq> Start \<Longrightarrow> i < length (tasks s)"
proof (cases e)
  case Start
  with start_summary [of cfg work s s'] assms that show ?thesis
    by (auto simp: resumed_def)
next
  case (Reply i r)
  with reply_summary [of cfg work i r s s'] assms that show ?thesis
    by (auto simp: resumed_def)
next
  case (Wake i)
  with wake_summary [of cfg work i s s'] assms that show ?thesis
    by (auto simp: resumed_def)
qed

subsection \<open>Runs\<close>

lemma exec_append:
  "exec cfg work (es @ es') s =
     (case exec cfg work es s of Inl x \<Rightarrow> Inl x | Inr s' \<Rightarrow> exec cfg work es' s')"
  by (induction es arbitrary: s) (simp_all split: sum.splits)

lemma exec_snoc:
  "exec cfg work (es @ [e]) s =
     (case exec cfg work es s of Inl x \<Rightarrow> Inl x | Inr s' \<Rightarrow> step cfg work e s')"
  by (simp add: exec_append split: sum.splits)

lemma exec_invariant:
  assumes "exec cfg work evs s = Inr s'" and "P s"
    and "\<And>e t t'. P t \<Longrightarrow> step cfg work e t = Inr t' \<Longrightarrow> P t'"
  shows "P s'"
  using assms(1,2)
proof (induction evs arbitrary: s)
  case Nil
  then show ?case by simp
next
  case (Cons e es)
  then obtain t where t: "step cfg work e s = Inr t" "exec cfg work es t = Inr s'"
    by (auto split: sum.splits)
  from assms(3) [OF Cons.prems(2) t(1)] have "P t" .
  with Cons.IH [OF t(2)] show ?case .
qed

lemma after_fields [simp]:
  "tasks (after work i as p' n s) = (tasks s)[i := p']"
  "trace (after work i as p' n s) = trace s @ map (Pair i) as"
  "started (after work i as p' n s) = n"
  "cache (after work i as p' n s) = cache (fold (applyAct work) (map (Pair i) as) s)"
  "out (after work i as p' n s) = out (fold (applyAct work) (map (Pair i) as) s)"
  "hits (after work i as p' n s) = hits (fold (applyAct work) (map (Pair i) as) s)"
  "misses (after work i as p' n s) = misses (fold (applyAct work) (map (Pair i) as) s)"
  "processed (after work i as p' n s) = processed (fold (applyAct work) (map (Pair i) as) s)"
  by (simp_all add: after_def)

subsection \<open>The transitions of one task\<close>

lemma local_Queued:
  assumes "local cfg w Queued x = Some (as, p')"
  obtains cv where "x = Go (Some cv)" "as = [Hit cv]" "p' = Done"
  | "x = Go None" "as = [Call (primaryRequest cfg w)]" "p' = AwaitPrimary"
  using assms by (cases x) (auto elim: local.elims)

lemma local_Go:
  assumes "local cfg w p (Go c) = Some (as, p')"
  shows "p = Queued"
  using assms by (cases p) simp_all

lemma local_not_Go:
  assumes "local cfg w p x = Some (as, p')" "\<And>c. x \<noteq> Go c"
  shows "isRunning p"
  using assms by (cases p; cases x) (auto simp: isRunning_def)

lemma local_target:
  assumes "local cfg w p x = Some (as, p')"
  shows "p' \<noteq> Queued"
  using assms by (auto elim!: local.elims split: if_splits)


lemma resumed_phase:
  assumes "resumed work e s = (i, p, x)" "shape work s" "i < length work"
    "local cfg w p x = Some (as, p')"
  shows "p = tasks s ! i"
  using assms by (cases e) (auto simp: resumed_def shape_def)

subsection \<open>The shape of the state\<close>

lemma shape_init: "shape work (init cache0 out0 work)"
  by (simp add: shape_def init_def)

lemma shape_step:
  assumes st: "step cfg work e s = Inr s'" and sh: "shape work s"
  shows "shape work s'"
proof -
  from st obtain i p x as p' where
    r: "resumed work e s = (i, p, x)" and i: "i < length work"
    and l: "local cfg (work ! i) p x = Some (as, p')"
    and s': "s' = after work i as p' (if e = Start then started s + 1 else started s) s"
    by (rule step_summary)
  from l have nq: "p' \<noteq> Queued" by (rule local_target)
  show ?thesis
  proof (cases "e = Start")
    case True
    with r have "i = started s" by (simp add: resumed_def)
    with sh i nq s' True show ?thesis
      by (auto simp: shape_def nth_list_update)
  next
    case False
    with r have x: "\<And>c. x \<noteq> Go c" and p: "p = tasks s ! i"
      by (cases e; auto simp: resumed_def)+
    from local_not_Go [OF l x] p have "tasks s ! i \<noteq> Queued"
      by (auto simp: isRunning_def)
    with sh i nq s' False show ?thesis
      by (auto simp: shape_def nth_list_update)
  qed
qed

subsection \<open>Nothing is thrown\<close>

lemma outGet_outSet: "outGet c (outSet c' v ob) = (if c = c' then Some v else outGet c ob)"
  by (simp add: outGet_def outSet_def)

lemma outGet_pushOr:
  "outGet c (pushOr c' e ob) =
     (if c = c' then map_option (\<lambda>xs. xs @ [e]) (outGet c ob) else outGet c ob)"
  by (auto simp: pushOr_def outPush_def outGet_outSet split: option.splits)

lemma outGet_applyAct_None:
  "(outGet c (out (applyAct work x s)) = None) = (outGet c (out s) = None)"
  by (cases "(work, x, s)" rule: applyAct.cases) (simp_all add: outGet_pushOr)

lemma outGet_fold_None:
  "(outGet c (out (fold (applyAct work) xs s)) = None) = (outGet c (out s) = None)"
  by (induction xs arbitrary: s) (simp_all add: outGet_applyAct_None)

lemma allocated_step:
  assumes st: "step cfg work e s = Inr s'" and al: "allocated work s"
  shows "allocated work s'"
proof -
  from st obtain i as p' n where "s' = after work i as p' n s"
    by (rule step_summary)
  with al show ?thesis
    by (simp add: allocated_def outGet_fold_None)
qed

lemma finish_enabled:
  assumes "outGet (country w) (out s) \<noteq> None"
  shows "\<exists>s'. finish w i res s = Inr s'"
  using assms by (cases res) (auto simp: finish_def outPush_def Let_def split: option.splits)

lemma start_enabled:
  assumes "started s < length work" "inflight s < concurrency cfg" "allocated work s"
  shows "\<exists>s'. step cfg work Start s = Inr s'"
proof -
  from assms(1,3) have "outGet (country (work ! started s)) (out s) \<noteq> None"
    by (simp add: allocated_def)
  with assms(1,2) show ?thesis
    by (auto simp: taskStart_def outPush_def split: option.splits)
qed

lemma reply_enabled:
  assumes "i < length work" "length (tasks s) = length work" "allocated work s"
    and "tasks s ! i = AwaitPrimary \<or> tasks s ! i = AwaitFallback"
  shows "\<exists>s'. step cfg work (Reply i r) s = Inr s'"
proof -
  from assms(1,3) have a: "outGet (country (work ! i)) (out s) \<noteq> None"
    by (simp add: allocated_def)
  have f: "\<And>res t. out t = out s \<Longrightarrow> \<exists>s'. finish (work ! i) i res t = Inr s'"
    using a by (intro finish_enabled) simp
  from assms(4) show ?thesis
  proof
    assume "tasks s ! i = AwaitPrimary"
    with assms(1,2) f [of "s\<lparr>trace := trace s @ [(i, Ret r)]\<rparr>"] show ?thesis
      by (cases r) (auto simp: afterPrimary_def Let_def)
  next
    assume "tasks s ! i = AwaitFallback"
    with assms(1,2) f [of "s\<lparr>trace := trace s @ [(i, Ret r)]\<rparr>"] show ?thesis
      by (cases r) (auto simp: afterFallback_def Let_def)
  qed
qed

lemma wake_enabled:
  assumes "i < length work" "length (tasks s) = length work" "allocated work s"
    and "tasks s ! i = SleepPrimary res \<or> tasks s ! i = SleepFallback res"
  shows "\<exists>s'. step cfg work (Wake i) s = Inr s'"
proof -
  from assms(1,3) have a: "outGet (country (work ! i)) (out s) \<noteq> None"
    by (simp add: allocated_def)
  from assms(4) show ?thesis
  proof
    assume "tasks s ! i = SleepPrimary res"
    with assms(1,2) finish_enabled [OF a] show ?thesis
      by (cases res) (auto simp: wakePrimary_def)
  next
    assume "tasks s ! i = SleepFallback res"
    with assms(1,2) finish_enabled [OF a] show ?thesis
      by auto
  qed
qed

lemma step_not_thrown:
  assumes "shape work s" "allocated work s"
  shows "step cfg work e s \<noteq> Inl TypeError"
proof (cases e)
  case Start
  show ?thesis
  proof (cases "started s < length work \<and> inflight s < concurrency cfg")
    case True
    with start_enabled [of s work cfg] assms(2) Start show ?thesis by auto
  next
    case False
    with Start show ?thesis by auto
  qed
next
  case (Reply i r)
  show ?thesis
  proof (cases "i < length work \<and> (tasks s ! i = AwaitPrimary \<or> tasks s ! i = AwaitFallback)")
    case True
    with reply_enabled [of i work s cfg r] assms Reply show ?thesis
      by (auto simp: shape_def)
  next
    case False
    with Reply show ?thesis by (auto split: phase.splits)
  qed
next
  case (Wake i)
  show ?thesis
  proof (cases "i < length work \<and> (\<exists>res. tasks s ! i = SleepPrimary res \<or> tasks s ! i = SleepFallback res)")
    case True
    with wake_enabled [of i work s _ cfg] assms Wake show ?thesis
      by (auto simp: shape_def)
  next
    case False
    with Wake show ?thesis by (auto split: phase.splits)
  qed
qed

lemma sound_step:
  "sound work s \<Longrightarrow> step cfg work e s = Inr s' \<Longrightarrow> sound work s'"
  by (auto simp: sound_def intro: shape_step allocated_step)


lemma exec_not_thrown:
  assumes "sound work s"
  shows "exec cfg work evs s \<noteq> Inl TypeError"
  using assms
proof (induction evs arbitrary: s)
  case Nil
  then show ?case by simp
next
  case (Cons e es)
  show ?case
  proof (cases "step cfg work e s")
    case (Inl x)
    with step_not_thrown [of work s cfg e] Cons.prems show ?thesis
      by (auto simp: sound_def)
  next
    case (Inr t)
    with Cons.prems have "sound work t" by (auto intro: sound_step)
    with Cons.IH Inr show ?thesis by simp
  qed
qed

subsection \<open>Every run ends\<close>





subsection \<open>The work list and the first state\<close>

lemma pushCities_eq:
  "pushCities c cities work =
     work @ map (\<lambda>cityRaw. \<lparr>country = c, city = normalizeName cityRaw,
                              k = key c (normalizeName cityRaw)\<rparr>) cities"
  unfolding pushCities_def
  by (induction cities arbitrary: work) (simp_all add: Let_def)

lemma fold_buildStep_snd:
  "snd (fold buildStep raw (ob, work)) =
     work @ concat (map (\<lambda>(cr, cs). map (\<lambda>cityRaw. \<lparr>country = normalizeName cr,
                 city = normalizeName cityRaw,
                 k = key (normalizeName cr) (normalizeName cityRaw)\<rparr>)
               (case cs of None \<Rightarrow> [] | Some xs \<Rightarrow> xs)) raw)"
  by (induction raw arbitrary: ob work)
     (auto simp: buildStep_def pushCities_eq Let_def split: prod.splits)

lemma fold_buildStep_fst:
  "outGet c (fst (fold buildStep raw (ob, work))) =
     (if c \<in> normalizeName ` fst ` set raw then Some [] else outGet c ob)"
  by (induction raw arbitrary: ob work)
     (auto simp: buildStep_def outGet_outSet Let_def split: prod.splits)

lemma snd_build: "snd (build raw) = worklist raw"
  by (simp add: worklist_def build_def fold_buildStep_snd)

lemma worklist_eq:
  "worklist raw =
     concat (map (\<lambda>(cr, cs). map (\<lambda>cityRaw. \<lparr>country = normalizeName cr,
                 city = normalizeName cityRaw,
                 k = key (normalizeName cr) (normalizeName cityRaw)\<rparr>)
               (case cs of None \<Rightarrow> [] | Some xs \<Rightarrow> xs)) raw)"
  by (simp add: worklist_def build_def fold_buildStep_snd)

lemma outGet_build:
  "outGet c (fst (build raw)) = (if c \<in> normalizeName ` fst ` set raw then Some [] else None)"
  by (simp add: build_def fold_buildStep_fst) (simp add: outGet_def emptyOut_def)

lemma worklist_cases:
  assumes "w \<in> set (worklist raw)"
  obtains cr cs cityRaw where "(cr, Some cs) \<in> set raw" "cityRaw \<in> set cs"
    "w = \<lparr>country = normalizeName cr, city = normalizeName cityRaw,
          k = key (normalizeName cr) (normalizeName cityRaw)\<rparr>"
proof -
  from assms obtain e where e: "e \<in> set raw"
    and w: "w \<in> set (case e of (cr, cs) \<Rightarrow> map (\<lambda>cityRaw. \<lparr>country = normalizeName cr,
                 city = normalizeName cityRaw,
                 k = key (normalizeName cr) (normalizeName cityRaw)\<rparr>)
               (case cs of None \<Rightarrow> [] | Some xs \<Rightarrow> xs))"
    unfolding worklist_eq set_concat set_map by blast
  obtain cr cs where ecs: "e = (cr, cs)" by (cases e)
  show ?thesis
  proof (cases cs)
    case None
    with w ecs show ?thesis by simp
  next
    case (Some xs)
    with w ecs obtain cityRaw where "cityRaw \<in> set xs"
      "w = \<lparr>country = normalizeName cr, city = normalizeName cityRaw,
          k = key (normalizeName cr) (normalizeName cityRaw)\<rparr>"
      by auto
    with e ecs Some that show ?thesis by blast
  qed
qed

lemma worklist_item:
  assumes "w \<in> set (worklist raw)"
  shows "k w = key (country w) (city w)" and "country w \<in> normalizeName ` fst ` set raw"
proof -
  from assms obtain cr cs cityRaw where m: "(cr, Some cs) \<in> set raw"
    and w: "w = \<lparr>country = normalizeName cr, city = normalizeName cityRaw,
          k = key (normalizeName cr) (normalizeName cityRaw)\<rparr>"
    by (rule worklist_cases)
  from w show "k w = key (country w) (city w)" by simp
  from m have "normalizeName (fst (cr, Some cs)) \<in> normalizeName ` fst ` set raw"
    by (intro imageI)
  with w show "country w \<in> normalizeName ` fst ` set raw" by simp
qed

lemma worklist_member:
  assumes "(cr, Some cs) \<in> set raw" "cityRaw \<in> set cs"
  shows "\<lparr>country = normalizeName cr, city = normalizeName cityRaw,
          k = key (normalizeName cr) (normalizeName cityRaw)\<rparr> \<in> set (worklist raw)"
proof -
  let ?f = "\<lambda>(cr, cs). map (\<lambda>cityRaw. \<lparr>country = normalizeName cr,
                 city = normalizeName cityRaw,
                 k = key (normalizeName cr) (normalizeName cityRaw)\<rparr>)
               (case cs of None \<Rightarrow> [] | Some xs \<Rightarrow> xs)"
  from assms(1) have "?f (cr, Some cs) \<in> set (map ?f raw)"
    unfolding set_map by (rule imageI)
  moreover from assms(2) have "\<lparr>country = normalizeName cr, city = normalizeName cityRaw,
          k = key (normalizeName cr) (normalizeName cityRaw)\<rparr> \<in> set (?f (cr, Some cs))"
    by simp
  ultimately show ?thesis
    unfolding worklist_eq set_concat by blast
qed

lemma runTasks_eq:
  "runTasks cfg raw cache0 evs =
     exec cfg (worklist raw) evs (init cache0 (fst (build raw)) (worklist raw))"
proof (cases "build raw :: 'a outobj \<times> workitem list")
  case (Pair ob wl)
  with snd_build [of raw] have "wl = worklist raw"
    by (metis snd_conv)
  with Pair show ?thesis
    by (simp add: runTasks_def)
qed

lemma sound_init: "sound (worklist raw) (init cache0 (fst (build raw)) (worklist raw))"
proof -
  have "allocated (worklist raw) (init cache0 (fst (build raw)) (worklist raw))"
    using worklist_item(2) by (auto simp: allocated_def init_def outGet_build)
  then show ?thesis by (simp add: sound_def shape_init)
qed


subsection \<open>The log of a task follows its phase\<close>

lemma tlog_append [simp]: "tlog i (tr @ tr') = tlog i tr @ tlog i tr'"
  by (simp add: tlog_def)

lemma tlog_Nil [simp]: "tlog i [] = []"
  by (simp add: tlog_def)

lemma tlog_Cons [simp]: "tlog i ((j, a) # tr) = (if j = i then a # tlog i tr else tlog i tr)"
  by (simp add: tlog_def)

lemma tlog_own [simp]: "tlog i (map (Pair i) as) = as"
  by (induction as) (simp_all add: tlog_def)

lemma tlog_other [simp]: "i \<noteq> j \<Longrightarrow> tlog i (map (Pair j) as) = []"
  by (induction as) (simp_all add: tlog_def)










subsection \<open>The calls and the replies in the log of a finished task\<close>

lemma map_filter_append [simp]:
  "List.map_filter f (xs @ ys) = List.map_filter f xs @ List.map_filter f ys"
  by (simp add: List.map_filter_def)

lemma ending_no_call [simp]: "List.map_filter callOf (ending res) = []"
  by (cases res) (simp_all add: List.map_filter_simps)

lemma ending_no_ret [simp]: "List.map_filter retOf (ending res) = []"
  by (cases res) (simp_all add: List.map_filter_simps)

lemma nap_no_call [simp]: "List.map_filter callOf (nap cfg r) = []"
  by (simp add: nap_def List.map_filter_simps)

lemma nap_no_ret [simp]: "List.map_filter retOf (nap cfg r) = []"
  by (simp add: nap_def List.map_filter_simps)





subsection \<open>The cache, the output and the counters follow the log\<close>

lemma applyAct_shared:
  assumes "shared s = shared t"
  shows "shared (applyAct work x s) = shared (applyAct work x t)"
  using assms by (cases "(work, x, s)" rule: applyAct.cases) (simp_all add: shared_def)

lemma fold_applyAct_shared:
  assumes "shared s = shared t"
  shows "shared (fold (applyAct work) xs s) = shared (fold (applyAct work) xs t)"
  using assms
proof (induction xs arbitrary: s t)
  case Nil
  then show ?case by simp
next
  case (Cons x xs)
  from Cons.prems have "shared (applyAct work x s) = shared (applyAct work x t)"
    by (rule applyAct_shared)
  from Cons.IH [OF this] show ?case by simp
qed

lemma shared_after: "shared (after work i as p' n s) = shared (fold (applyAct work) (map (Pair i) as) s)"
  by (simp add: shared_def)

lemma replayed_init: "replayed work (init cache0 out0 work) (init cache0 out0 work)"
  by (simp add: replayed_def init_def)

lemma replayed_step:
  assumes st: "step cfg work e s = Inr s'" and rp: "replayed work s0 s"
  shows "replayed work s0 s'"
proof -
  from st obtain i as p' n where s': "s' = after work i as p' n s"
    by (rule step_summary)
  from rp have "shared (fold (applyAct work) (map (Pair i) as) s) =
      shared (fold (applyAct work) (map (Pair i) as) (fold (applyAct work) (trace s) s0))"
    unfolding replayed_def by (rule fold_applyAct_shared)
  with s' show ?thesis
    by (simp add: replayed_def shared_after)
qed

lemma exec_replayed:
  assumes "exec cfg work evs s = Inr s'" "replayed work s0 s"
  shows "replayed work s0 s'"
  using assms(1,2) replayed_step [where ?s0.0 = s0] by (rule exec_invariant)

lemma runTasks_replayed:
  assumes "runTasks cfg raw cache0 evs = Inr s"
  shows "replayed (worklist raw) (init cache0 (fst (build raw)) (worklist raw)) s"
  using assms unfolding runTasks_eq
  by (rule exec_replayed) (rule replayed_init)

lemma replayed_fields:
  assumes "replayed work s0 s"
  shows "cache s = cache (fold (applyAct work) (trace s) s0)"
    and "out s = out (fold (applyAct work) (trace s) s0)"
    and "hits s = hits (fold (applyAct work) (trace s) s0)"
    and "misses s = misses (fold (applyAct work) (trace s) s0)"
    and "processed s = processed (fold (applyAct work) (trace s) s0)"
  using assms by (simp_all add: replayed_def shared_def)

subsection \<open>What a log writes\<close>

lemma emitted_Nil [simp]: "emitted work c [] = []"
  by (simp add: emitted_def List.map_filter_simps)

lemma emitted_Cons:
  "emitted work c (e # tr) =
     (if country (work ! fst e) = c
      then (case emitOf (snd e) of None \<Rightarrow> emitted work c tr
            | Some cv \<Rightarrow> entry (city (work ! fst e)) cv # emitted work c tr)
      else emitted work c tr)"
  by (simp add: emitted_def List.map_filter_simps split: option.splits)

lemma emitted_append [simp]: "emitted work c (tr @ tr') = emitted work c tr @ emitted work c tr'"
  by (simp add: emitted_def)

lemma outGet_applyAct:
  "outGet c (out (applyAct work e s)) =
     map_option (\<lambda>xs. xs @ emitted work c [e]) (outGet c (out s))"
  by (cases "(work, e, s)" rule: applyAct.cases)
     (auto simp: outGet_pushOr emitted_Cons option.map_ident)

lemma outGet_fold:
  "outGet c (out (fold (applyAct work) tr s)) =
     map_option (\<lambda>xs. xs @ emitted work c tr) (outGet c (out s))"
proof (induction tr arbitrary: s)
  case Nil
  then show ?case by (simp add: option.map_ident)
next
  case (Cons e tr)
  have "emitted work c (e # tr) = emitted work c [e] @ emitted work c tr"
    using emitted_append [of work c "[e]" tr] by simp
  then show ?case
    by (simp add: Cons.IH outGet_applyAct option.map_comp comp_def)
qed



lemma cache_applyAct:
  "cache (applyAct work e s) =
     (case storeOf (snd e) of None \<Rightarrow> cache s | Some cv \<Rightarrow> (cache s)(k (work ! fst e) \<mapsto> cv))"
  by (cases "(work, e, s)" rule: applyAct.cases) simp_all

lemma cache_fold_other:
  assumes "\<And>i a cv. (i, a) \<in> set tr \<Longrightarrow> storeOf a = Some cv \<Longrightarrow> k (work ! i) \<noteq> key'"
  shows "cache (fold (applyAct work) tr s) key' = cache s key'"
  using assms
proof (induction tr arbitrary: s)
  case Nil
  then show ?case by simp
next
  case (Cons e tr)
  have "cache (applyAct work e s) key' = cache s key'"
    using Cons.prems [of "fst e" "snd e"] by (auto simp: cache_applyAct split: option.splits)
  moreover have "cache (fold (applyAct work) tr (applyAct work e s)) key' = cache (applyAct work e s) key'"
    using Cons.prems by (intro Cons.IH) auto
  ultimately show ?case by simp
qed



lemma hits_applyAct:
  "hits (applyAct work e s) = hits s + (if (\<exists>cv. snd e = Hit cv) then 1 else 0)"
  by (cases "(work, e, s)" rule: applyAct.cases) simp_all

lemma hits_fold:
  "hits (fold (applyAct work) tr s) = hits s + length (filter (\<lambda>e. \<exists>cv. snd e = Hit cv) tr)"
  by (induction tr arbitrary: s) (simp_all add: hits_applyAct)



subsection \<open>The state of a run, read from its log\<close>

lemma runTasks_out:
  assumes "runTasks cfg raw cache0 evs = Inr s"
  shows "outGet c (out s) =
     (if c \<in> normalizeName ` fst ` set raw then Some (emitted (worklist raw) c (trace s)) else None)"
proof -
  from runTasks_replayed [OF assms]
  have "out s = out (fold (applyAct (worklist raw)) (trace s) (init cache0 (fst (build raw)) (worklist raw)))"
    by (rule replayed_fields)
  then show ?thesis
    by (simp add: outGet_fold) (simp add: init_def outGet_build)
qed


lemma runTasks_hits:
  assumes "runTasks cfg raw cache0 evs = Inr s"
  shows "hits s = length (filter (\<lambda>e. \<exists>cv. snd e = Hit cv) (trace s))"
  using replayed_fields(3) [OF runTasks_replayed [OF assms]]
  by (simp add: hits_fold) (simp add: init_def)



subsection \<open>More on the transitions of one task\<close>

lemma resumed_cases:
  assumes "resumed work e s = (i, p, x)"
  obtains "e = Start" "i = started s" "p = Queued" "x = Go (cache s (k (work ! i)))"
  | "e \<noteq> Start" "p = tasks s ! i" "\<And>c. x \<noteq> Go c"
  using assms by (cases e) (auto simp: resumed_def)

lemma local_emit:
  assumes "local cfg w p x = Some (as, p')" "a \<in> set as" "emitOf a = Some cv"
  shows "p' = Done"
  using assms by (auto elim!: local.elims split: if_splits elim: ending.elims)

lemma ending_cases:
  obtains g where "res = Some g" "ending res = [Store (coordOf g)]"
  | "res = None" "ending res = [Miss]"
  by (cases res) auto

lemma local_store:
  assumes "local cfg w p x = Some (as, p')" "a \<in> set as" "storeOf a = Some cv"
  shows "isRunning p"
proof (cases p)
  case Queued
  with assms show ?thesis by (auto elim!: local_Queued)
next
  case Done
  with assms show ?thesis by (cases x) simp_all
qed (simp_all add: isRunning_def)


subsection \<open>The log names tasks of the work list\<close>




subsection \<open>The loaded cache\<close>

lemma preloaded_init: "preloaded work cache0 (init cache0 out0 work)"
  by (simp add: preloaded_def init_def)

lemma preloaded_step:
  assumes st: "step cfg work e s = Inr s'" and sh: "shape work s" and pl: "preloaded work cache0 s"
  shows "preloaded work cache0 s'"
proof -
  from st obtain i p x as p' where
    r: "resumed work e s = (i, p, x)" and i: "i < length work"
    and l: "local cfg (work ! i) p x = Some (as, p')"
    and s': "s' = after work i as p' (if e = Start then started s + 1 else started s) s"
    by (rule step_summary)
  from resumed_phase [OF r sh i l] have p: "p = tasks s ! i" .
  from sh i have len: "i < length (tasks s)" by (simp add: shape_def)
  have own: "\<And>cv. cache0 (k (work ! i)) = Some cv \<Longrightarrow>
      p = Queued \<and> tlog i (trace s) = [] \<and> as = [Hit cv] \<and> p' = Done"
  proof -
    fix cv assume c0: "cache0 (k (work ! i)) = Some cv"
    with pl i p have "(p = Queued \<and> tlog i (trace s) = []) \<or> p = Done"
      by (auto simp: preloaded_def)
    moreover from l have "p \<noteq> Done" by (cases x) auto
    ultimately have q: "p = Queued" "tlog i (trace s) = []" by auto
    from c0 pl have c: "cache s (k (work ! i)) = Some cv" by (simp add: preloaded_def)
    from r show "p = Queued \<and> tlog i (trace s) = [] \<and> as = [Hit cv] \<and> p' = Done"
    proof (cases rule: resumed_cases)
      case 1
      with l c q show ?thesis by simp
    next
      case 2
      with l q show ?thesis by (cases x) auto
    qed
  qed
  have keep: "\<And>key' cv. cache0 key' = Some cv \<Longrightarrow> cache s' key' = cache s key'"
  proof -
    fix key' cv assume c0: "cache0 key' = Some cv"
    have "cache (fold (applyAct work) (map (Pair i) as) s) key' = cache s key'"
    proof (rule cache_fold_other)
      fix j a cv' assume m: "(j, a) \<in> set (map (Pair i) as)" and so: "storeOf a = Some cv'"
      then have ji: "j = i" and a: "a \<in> set as" by auto
      show "k (work ! j) \<noteq> key'"
      proof
        assume "k (work ! j) = key'"
        with ji c0 own have "as = [Hit cv]" by simp
        with a so show False by simp
      qed
    qed
    with s' show "cache s' key' = cache s key'" by simp
  qed
  show ?thesis
    unfolding preloaded_def
  proof (intro conjI allI impI)
    fix key' cv assume c0: "cache0 key' = Some cv"
    with pl keep show "cache s' key' = Some cv" by (simp add: preloaded_def)
  next
    fix j cv assume j: "j < length work" and c0: "cache0 (k (work ! j)) = Some cv"
    show "(tasks s' ! j = Queued \<and> tlog j (trace s') = []) \<or>
          (tasks s' ! j = Done \<and> tlog j (trace s') = [Hit cv])"
    proof (cases "j = i")
      case True
      with own [of cv] c0 s' len show ?thesis by simp
    next
      case False
      with pl j c0 s' show ?thesis by (simp add: preloaded_def)
    qed
  qed
qed

lemma runTasks_preloaded:
  assumes "runTasks cfg raw cache0 evs = Inr s"
  shows "preloaded (worklist raw) cache0 s"
proof -
  have "shape (worklist raw) s \<and> preloaded (worklist raw) cache0 s"
    using assms unfolding runTasks_eq
  proof (rule exec_invariant)
    show "shape (worklist raw) (init cache0 (fst (build raw)) (worklist raw)) \<and>
       preloaded (worklist raw) cache0 (init cache0 (fst (build raw)) (worklist raw))"
      by (simp add: shape_init preloaded_init)
  next
    fix e t t'
    assume "shape (worklist raw) t \<and> preloaded (worklist raw) cache0 t"
      "step cfg (worklist raw) e t = Inr t'"
    then show "shape (worklist raw) t' \<and> preloaded (worklist raw) cache0 t'"
      by (auto intro: shape_step preloaded_step)
  qed
  then show ?thesis by simp
qed

subsection \<open>The counter of processed tasks\<close>









subsection \<open>A run goes on until every task has returned\<close>




subsection \<open>What one step writes\<close>

lemma quiet_applyAct:
  assumes "emitOf a = None"
  shows "cache (applyAct work (i, a) s) = cache s" "out (applyAct work (i, a) s) = out s"
    "hits (applyAct work (i, a) s) = hits s"
  using assms by (cases a; simp)+

lemma quiet_fold:
  assumes "\<forall>a \<in> set as. emitOf a = None"
  shows "cache (fold (applyAct work) (map (Pair i) as) s) = cache s"
    and "out (fold (applyAct work) (map (Pair i) as) s) = out s"
    and "hits (fold (applyAct work) (map (Pair i) as) s) = hits s"
  using assms by (induction as arbitrary: s; simp add: quiet_applyAct)+

lemma store_fold:
  assumes "\<forall>a \<in> set pre. emitOf a = None"
  shows "cache (fold (applyAct work) (map (Pair i) (pre @ [Store cv])) s) = (cache s)(k (work ! i) \<mapsto> cv)"
    and "out (fold (applyAct work) (map (Pair i) (pre @ [Store cv])) s) =
           pushOr (country (work ! i)) (entry (city (work ! i)) cv) (out s)"
    and "hits (fold (applyAct work) (map (Pair i) (pre @ [Store cv])) s) = hits s"
  using assms by (simp_all add: quiet_fold)

lemma local_kinds:
  assumes "local cfg w p x = Some (as, p')"
  obtains (hit) cv where "p = Queued" "x = Go (Some cv)" "as = [Hit cv]" "p' = Done"
  | (store) cv pre where "isRunning p" "p' = Done" "as = pre @ [Store cv]"
      "\<forall>a \<in> set pre. emitOf a = None"
  | (quiet) "\<forall>a \<in> set as. emitOf a = None"
proof (cases p)
  case Queued
  with assms hit quiet show ?thesis by (auto elim!: local_Queued)
next
  case AwaitPrimary
  with assms obtain r where x: "x = Got r" by (cases x) auto
  show ?thesis
  proof (cases "resOf r")
    case None
    with assms AwaitPrimary x quiet show ?thesis by (auto split: if_splits)
  next
    case (Some g)
    show ?thesis
    proof (cases "keyed cfg")
      case True
      with assms AwaitPrimary x Some store [where cv = "coordOf g" and pre = "[Ret r]"] show ?thesis
        by (auto simp: isRunning_def)
    next
      case False
      with assms AwaitPrimary x Some quiet show ?thesis by (auto split: if_splits)
    qed
  qed
next
  case (SleepPrimary res)
  with assms have x: "x = Woke" by (cases x) auto
  show ?thesis
  proof (cases res)
    case None
    with assms SleepPrimary x quiet show ?thesis by auto
  next
    case (Some g)
    with assms SleepPrimary x store [where cv = "coordOf g" and pre = "[]"] show ?thesis
      by (auto simp: isRunning_def)
  qed
next
  case AwaitFallback
  with assms obtain r where x: "x = Got r" by (cases x) auto
  show ?thesis
  proof (cases "keyed cfg \<or> r = Failed")
    case True
    show ?thesis
    proof (cases "resOf r")
      case None
      with assms AwaitFallback x True quiet show ?thesis by auto
    next
      case (Some g)
      with assms AwaitFallback x True store [where cv = "coordOf g" and pre = "[Ret r]"] show ?thesis
        by (auto simp: isRunning_def)
    qed
  next
    case False
    with assms AwaitFallback x quiet show ?thesis by auto
  qed
next
  case (SleepFallback res)
  with assms have x: "x = Woke" by (cases x) auto
  show ?thesis
  proof (cases res)
    case None
    with assms SleepFallback x quiet show ?thesis by auto
  next
    case (Some g)
    with assms SleepFallback x store [where cv = "coordOf g" and pre = "[]"] show ?thesis
      by (auto simp: isRunning_def)
  qed
next
  case Done
  with assms show ?thesis by (cases x) simp_all
qed

lemma distinct_keys:
  assumes "distinct (map k work)" "i < length work" "j < length work" "i \<noteq> j"
  shows "k (work ! i) \<noteq> k (work ! j)"
  using assms by (metis length_map nth_eq_iff_index_eq nth_map)

subsection \<open>The hit counter\<close>

lemma fresh_init: "fresh work cache0 (init cache0 out0 work)"
  by (simp add: fresh_def init_def)

lemma fresh_step:
  assumes st: "step cfg work e s = Inr s'" and sh: "shape work s"
    and dk: "distinct (map k work)" and fr: "fresh work cache0 s"
  shows "fresh work cache0 s'"
proof -
  from st obtain i p x as p' where
    r: "resumed work e s = (i, p, x)" and i: "i < length work"
    and l: "local cfg (work ! i) p x = Some (as, p')"
    and s': "s' = after work i as p' (if e = Start then started s + 1 else started s) s"
    by (rule step_summary)
  from sh i have len: "i < length (tasks s)" by (simp add: shape_def)
  show ?thesis
    unfolding fresh_def
  proof (intro allI impI)
    fix j assume j: "j < length work"
      and h: "cache0 (k (work ! j)) = None \<and> tasks s' ! j = Queued"
    from h s' len local_target [OF l] have ji: "j \<noteq> i" by auto
    with h s' have "tasks s ! j = Queued" by simp
    with fr j h have old: "cache s (k (work ! j)) = None" by (simp add: fresh_def)
    have "cache (fold (applyAct work) (map (Pair i) as) s) (k (work ! j)) = cache s (k (work ! j))"
    proof (rule cache_fold_other)
      fix i' a cv assume "(i', a) \<in> set (map (Pair i) as)"
      then have "i' = i" by auto
      with distinct_keys [OF dk i j] ji show "k (work ! i') \<noteq> k (work ! j)" by auto
    qed
    with old s' show "cache s' (k (work ! j)) = None" by simp
  qed
qed

lemma hitcount_init: "hitcount work cache0 (init cache0 out0 work)"
  by (simp add: hitcount_def init_def)

lemma hitcount_step:
  assumes st: "step cfg work e s = Inr s'" and sh: "shape work s"
    and pl: "preloaded work cache0 s" and fr: "fresh work cache0 s"
    and hc: "hitcount work cache0 s"
  shows "hitcount work cache0 s'"
proof -
  from st obtain i p x as p' where
    r: "resumed work e s = (i, p, x)" and i: "i < length work"
    and l: "local cfg (work ! i) p x = Some (as, p')"
    and s': "s' = after work i as p' (if e = Start then started s + 1 else started s) s"
    by (rule step_summary)
  let ?S = "\<lambda>n. {j. j < n \<and> cache0 (k (work ! j)) \<noteq> None}"
  from r show ?thesis
  proof (cases rule: resumed_cases)
    case 1
    from sh i 1 have q: "tasks s ! i = Queued" by (simp add: shape_def)
    show ?thesis
    proof (cases "cache0 (k (work ! i))")
      case None
      with fr i q have "cache s (k (work ! i)) = None" by (simp add: fresh_def)
      with l 1 have "as = [Call (primaryRequest cfg (work ! i))]" by simp
      then have "hits s' = hits s" unfolding s' by simp
      moreover from None 1 have "?S (started s + 1) = ?S (started s)"
        by (auto simp: less_Suc_eq)
      ultimately show ?thesis using hc 1 s' by (simp add: hitcount_def)
    next
      case (Some cv)
      with pl have "cache s (k (work ! i)) = Some cv" by (simp add: preloaded_def)
      with l 1 have "as = [Hit cv]" by simp
      then have "hits s' = hits s + 1" unfolding s' by simp
      moreover from Some 1 have "?S (started s + 1) = insert (started s) (?S (started s))"
        by (auto simp: less_Suc_eq)
      then have "card (?S (started s + 1)) = card (?S (started s)) + 1"
        by simp
      ultimately show ?thesis using hc 1 s' by (simp add: hitcount_def)
    qed
  next
    case 2
    from l have "hits (fold (applyAct work) (map (Pair i) as) s) = hits s"
    proof (cases rule: local_kinds)
      case (hit cv)
      with 2 show ?thesis by auto
    next
      case (store cv pre)
      then show ?thesis by (simp add: quiet_fold)
    next
      case quiet
      then show ?thesis by (simp add: quiet_fold)
    qed
    with hc 2 s' show ?thesis by (simp add: hitcount_def)
  qed
qed

lemma runTasks_hitcount:
  assumes "runTasks cfg raw cache0 evs = Inr s" "distinct (map k (worklist raw))"
  shows "hitcount (worklist raw) cache0 s \<and> shape (worklist raw) s"
proof -
  let ?P = "\<lambda>s. shape (worklist raw) s \<and> preloaded (worklist raw) cache0 s
      \<and> fresh (worklist raw) cache0 s \<and> hitcount (worklist raw) cache0 s"
  have "?P s"
    using assms(1) unfolding runTasks_eq
  proof (rule exec_invariant)
    show "?P (init cache0 (fst (build raw)) (worklist raw))"
      by (simp add: shape_init preloaded_init fresh_init hitcount_init)
  next
    fix e t t'
    assume "?P t" "step cfg (worklist raw) e t = Inr t'"
    with assms(2) show "?P t'"
      by (auto intro: shape_step preloaded_step fresh_step hitcount_step)
  qed
  then show ?thesis by simp
qed

lemma allDone_started:
  assumes "shape work s" "allDone s"
  shows "started s = length work"
proof (rule ccontr)
  assume "started s \<noteq> length work"
  with assms(1) have lt: "started s < length work" by (simp add: shape_def)
  with assms(1) have "tasks s ! started s = Queued" by (simp add: shape_def)
  moreover from assms lt have "tasks s ! started s = Done"
    by (simp add: allDone_def list_all_length shape_def)
  ultimately show False by simp
qed

lemma card_loaded_keys:
  assumes "distinct (map k work)"
  shows "card {i. i < length work \<and> cache0 (k (work ! i)) \<noteq> None} =
         card (set (map k work) \<inter> dom cache0)"
proof -
  let ?I = "{i. i < length work \<and> cache0 (k (work ! i)) \<noteq> None}"
  have "inj_on (\<lambda>i. k (work ! i)) ?I"
    using distinct_keys [OF assms] by (auto simp: inj_on_def)
  then have "card ((\<lambda>i. k (work ! i)) ` ?I) = card ?I" by (rule card_image)
  moreover have "(\<lambda>i. k (work ! i)) ` ?I = set (map k work) \<inter> dom cache0"
  proof (intro set_eqI iffI)
    fix y assume "y \<in> (\<lambda>i. k (work ! i)) ` ?I"
    then obtain i where i: "i < length work" "cache0 (k (work ! i)) \<noteq> None" "y = k (work ! i)"
      by auto
    from i(1) have "work ! i \<in> set work" by simp
    with i(3) have "y \<in> set (map k work)" by simp
    with i(2,3) show "y \<in> set (map k work) \<inter> dom cache0" by (simp add: dom_def)
  next
    fix y assume "y \<in> set (map k work) \<inter> dom cache0"
    then obtain w where w: "w \<in> set work" "y = k w" "cache0 y \<noteq> None"
      by (auto simp: dom_def)
    from w(1) obtain i where "i < length work" "work ! i = w"
      by (auto simp: in_set_conv_nth)
    with w(2,3) have "i \<in> ?I" "y = k (work ! i)" by simp_all
    then show "y \<in> (\<lambda>i. k (work ! i)) ` ?I" by (rule rev_image_eqI)
  qed
  ultimately show ?thesis by simp
qed

subsection \<open>The entries of the output and the cache\<close>

lemma length_filter_update_gen:
  "i < length ps \<Longrightarrow>
     length (filter P (ps[i := p'])) + (if P (ps ! i) then 1 else 0) =
     length (filter P ps) + (if P p' then 1 else 0)"
proof (induction ps arbitrary: i)
  case Nil
  then show ?case by simp
next
  case (Cons q qs)
  show ?case
  proof (cases i)
    case 0
    then show ?thesis by simp
  next
    case (Suc n)
    with Cons.prems Cons.IH [of n] show ?thesis by auto
  qed
qed

lemma two_running:
  assumes "i < length ps" "j < length ps" "i \<noteq> j" "isRunning (ps ! i)" "isRunning (ps ! j)"
  shows "2 \<le> length (filter isRunning ps)"
proof -
  from length_filter_update_gen [OF assms(1), of isRunning Done] assms(4)
  have "length (filter isRunning ps) = length (filter isRunning (ps[i := Done])) + 1"
    by (simp add: isRunning_def)
  moreover have "ps[i := Done] ! j \<in> set (ps[i := Done])"
    using assms(2) by (intro nth_mem) simp
  with assms have "ps[i := Done] ! j \<in> set (filter isRunning (ps[i := Done]))"
    by simp
  then have "0 < length (filter isRunning (ps[i := Done]))"
    by (metis length_pos_if_in_set)
  ultimately show ?thesis by (simp add: Suc_le_eq)
qed

lemma bounded_init: "bounded cfg (init cache0 out0 work)"
  by (simp add: bounded_def inflight_def init_def isRunning_def)

lemma bounded_step:
  assumes st: "step cfg work e s = Inr s'" and sh: "shape work s" and bd: "bounded cfg s"
  shows "bounded cfg s'"
proof -
  from st obtain i p x as p' where
    r: "resumed work e s = (i, p, x)" and i: "i < length work"
    and l: "local cfg (work ! i) p x = Some (as, p')"
    and s': "s' = after work i as p' (if e = Start then started s + 1 else started s) s"
    by (rule step_summary)
  have go: "e = Start \<Longrightarrow> inflight s < concurrency cfg"
    using st by (auto split: if_splits)
  from sh i have len: "i < length (tasks s)" by (simp add: shape_def)
  from resumed_phase [OF r sh i l] have p: "p = tasks s ! i" .
  from length_filter_update_gen [OF len, of isRunning p'] s'
  have eq: "inflight s' + (if isRunning p then 1 else 0) = inflight s + (if isRunning p' then 1 else 0)"
    by (simp add: inflight_def p)
  from r show ?thesis
  proof (cases rule: resumed_cases)
    case 1
    with eq go bd show ?thesis by (simp add: bounded_def isRunning_def split: if_splits)
  next
    case 2
    from local_not_Go [OF l 2(3)] eq bd show ?thesis
      by (simp add: bounded_def split: if_splits)
  qed
qed

lemma pending_init: "pending work (init cache0 out0 work)"
  by (simp add: pending_def init_def isRunning_def)

lemma pending_step:
  assumes st: "step cfg work e s = Inr s'" and sh: "shape work s" and bd: "bounded cfg s"
    and q: "\<not> keyed cfg \<or> distinct (map k work)" and pd: "pending work s"
  shows "pending work s'"
proof -
  from st obtain i p x as p' where
    r: "resumed work e s = (i, p, x)" and i: "i < length work"
    and l: "local cfg (work ! i) p x = Some (as, p')"
    and s': "s' = after work i as p' (if e = Start then started s + 1 else started s) s"
    by (rule step_summary)
  from sh i have len: "i < length (tasks s)" and tl: "length (tasks s) = length work"
    by (simp_all add: shape_def)
  from resumed_phase [OF r sh i l] have p: "p = tasks s ! i" .
  show ?thesis
    unfolding pending_def
  proof (intro allI impI)
    fix j assume j: "j < length work" and run: "isRunning (tasks s' ! j)"
    from l show "cache s' (k (work ! j)) = None"
    proof (cases rule: local_kinds)
      case (hit cv)
      with run s' len have ji: "j \<noteq> i" by (auto simp: isRunning_def)
      with run s' have "isRunning (tasks s ! j)" by simp
      with pd j have "cache s (k (work ! j)) = None" by (simp add: pending_def)
      with hit s' show ?thesis by simp
    next
      case (store cv pre)
      with run s' len have ji: "j \<noteq> i" by (auto simp: isRunning_def)
      with run s' have rj: "isRunning (tasks s ! j)" by simp
      with pd j have old: "cache s (k (work ! j)) = None" by (simp add: pending_def)
      have "k (work ! i) \<noteq> k (work ! j)"
      proof (cases "keyed cfg")
        case True
        with q have "distinct (map k work)" by simp
        from distinct_keys [OF this i j] ji show ?thesis by auto
      next
        case False
        from two_running [OF len _ _ _ rj] store(1) p ji j tl
        have "2 \<le> inflight s" by (simp add: inflight_def)
        with bd False show ?thesis by (simp add: bounded_def concurrency_def)
      qed
      with store old s' show ?thesis by (simp add: quiet_fold)
    next
      case quiet
      then have same: "cache s' = cache s" unfolding s' by (simp add: quiet_fold)
      show ?thesis
      proof (cases "j = i")
        case False
        with run s' have "isRunning (tasks s ! j)" by simp
        with pd j same show ?thesis by (simp add: pending_def)
      next
        case True
        from r show ?thesis
        proof (cases rule: resumed_cases)
          case 1
          with l True run s' len have "cache s (k (work ! i)) = None"
            by (cases "cache s (k (work ! i))") (auto simp: isRunning_def)
          with True same show ?thesis by simp
        next
          case 2
          from local_not_Go [OF l 2(3)] p pd i have "cache s (k (work ! i)) = None"
            by (simp add: pending_def)
          with True same show ?thesis by simp
        qed
      qed
    qed
  qed
qed

lemma name_entry [simp]: "name (entry y cv) = y"
  by (simp add: entry_def)

lemma coord_of_entry [simp]: "\<lparr>lat = lat (entry y cv), lng = lng (entry y cv)\<rparr> = cv"
  by (simp add: entry_def)

lemma agrees_push:
  assumes ag: "agrees work s" and i: "i < length work"
    and c': "\<And>key'. cache s key' \<noteq> None \<Longrightarrow> cache' key' = cache s key'"
    and new: "cache' (k (work ! i)) = Some cv"
    and o': "out' = pushOr (country (work ! i)) (entry (city (work ! i)) cv) (out s)"
  shows "\<forall>c xs e. outGet c out' = Some xs \<and> e \<in> set xs \<longrightarrow>
        (\<exists>j < length work. country (work ! j) = c \<and> name e = city (work ! j) \<and>
           cache' (k (work ! j)) = Some \<lparr>lat = lat e, lng = lng e\<rparr>)"
proof (intro allI impI)
  fix c xs e assume h: "outGet c out' = Some xs \<and> e \<in> set xs"
  show "\<exists>j < length work. country (work ! j) = c \<and> name e = city (work ! j) \<and>
           cache' (k (work ! j)) = Some \<lparr>lat = lat e, lng = lng e\<rparr>"
  proof (cases "\<exists>ys. outGet c (out s) = Some ys \<and> e \<in> set ys")
    case True
    with ag obtain j where "j < length work" "country (work ! j) = c" "name e = city (work ! j)"
      "cache s (k (work ! j)) = Some \<lparr>lat = lat e, lng = lng e\<rparr>"
      unfolding agrees_def by blast
    with c' [of "k (work ! j)"] show ?thesis by auto
  next
    case False
    with h o' have "c = country (work ! i)" "e = entry (city (work ! i)) cv"
      by (auto simp: outGet_pushOr split: if_splits)
    with i new show ?thesis by auto
  qed
qed

lemma agrees_step:
  assumes st: "step cfg work e s = Inr s'" and sh: "shape work s"
    and pd: "pending work s" and ag: "agrees work s"
  shows "agrees work s'"
proof -
  from st obtain i p x as p' where
    r: "resumed work e s = (i, p, x)" and i: "i < length work"
    and l: "local cfg (work ! i) p x = Some (as, p')"
    and s': "s' = after work i as p' (if e = Start then started s + 1 else started s) s"
    by (rule step_summary)
  from resumed_phase [OF r sh i l] have p: "p = tasks s ! i" .
  from l show ?thesis
  proof (cases rule: local_kinds)
    case (hit cv)
    from r hit have c: "cache s (k (work ! i)) = Some cv"
      by (cases rule: resumed_cases) auto
    from hit have "cache s' = cache s"
      "out s' = pushOr (country (work ! i)) (entry (city (work ! i)) cv) (out s)"
      unfolding s' by simp_all
    with agrees_push [where cache' = "cache s'" and cv = cv and out' = "out s'", OF ag i] c
    show ?thesis
      by (simp add: agrees_def)
  next
    case (store cv pre)
    with pd i p have none: "cache s (k (work ! i)) = None" by (simp add: pending_def)
    from store have f: "cache s' = (cache s)(k (work ! i) \<mapsto> cv)"
      "out s' = pushOr (country (work ! i)) (entry (city (work ! i)) cv) (out s)"
      unfolding s' by (simp_all add: quiet_fold)
    from none f(1) have "\<And>key'. cache s key' \<noteq> None \<Longrightarrow> cache s' key' = cache s key'"
      by auto
    from agrees_push [where cache' = "cache s'" and cv = cv and out' = "out s'", OF ag i this _ f(2)] f(1)
    show ?thesis
      by (simp add: agrees_def)
  next
    case quiet
    then have "cache s' = cache s" "out s' = out s"
      unfolding s' by (simp_all add: quiet_fold)
    with ag show ?thesis by (simp add: agrees_def)
  qed
qed

lemma agrees_init:
  assumes "\<forall>c xs. outGet c out0 = Some xs \<longrightarrow> xs = []"
  shows "agrees work (init cache0 out0 work)"
  unfolding agrees_def
proof (intro allI impI)
  fix c xs e
  assume "outGet c (out (init cache0 out0 work)) = Some xs \<and> e \<in> set xs"
  then have o: "outGet c out0 = Some xs" and e: "e \<in> set xs" by (simp_all add: init_def)
  from assms o have "xs = []" by blast
  with e have False by simp
  then show "\<exists>i<length work. country (work ! i) = c \<and> name e = city (work ! i) \<and>
      cache (init cache0 out0 work) (k (work ! i)) = Some \<lparr>lat = lat e, lng = lng e\<rparr>" ..
qed

lemma runTasks_agrees:
  assumes "runTasks cfg raw cache0 evs = Inr s"
    and "\<not> keyed cfg \<or> distinct (map k (worklist raw))"
  shows "agrees (worklist raw) s"
proof -
  let ?P = "\<lambda>s. shape (worklist raw) s \<and> bounded cfg s \<and> pending (worklist raw) s
      \<and> agrees (worklist raw) s"
  have "?P s"
    using assms(1) unfolding runTasks_eq
  proof (rule exec_invariant)
    have "agrees (worklist raw) (init cache0 (fst (build raw)) (worklist raw))"
      by (rule agrees_init) (auto simp: outGet_build split: if_splits)
    then show "?P (init cache0 (fst (build raw)) (worklist raw))"
      by (simp add: shape_init bounded_init pending_init)
  next
    fix e t t'
    assume "?P t" "step cfg (worklist raw) e t = Inr t'"
    with assms(2) show "?P t'"
      by (auto intro: shape_step bounded_step pending_step agrees_step)
  qed
  then show ?thesis by simp
qed

subsection \<open>The written files\<close>







lemma own_proto_outSet [simp]: "own (outSet c v ob) ''__proto__'' = own ob ''__proto__''"
  by (simp add: outSet_def)

lemma own_proto_pushOr [simp]: "own (pushOr c e ob) ''__proto__'' = own ob ''__proto__''"
  by (simp add: pushOr_def outPush_def split: option.splits)

lemma own_proto_applyAct [simp]: "own (out (applyAct work x s)) ''__proto__'' = own (out s) ''__proto__''"
  by (cases "(work, x, s)" rule: applyAct.cases) simp_all

lemma own_proto_fold [simp]: "own (out (fold (applyAct work) tr s)) ''__proto__'' = own (out s) ''__proto__''"
  by (induction tr arbitrary: s) simp_all

lemma own_proto_build: "own (fst (fold buildStep raw (ob, work))) ''__proto__'' = own ob ''__proto__''"
  by (induction raw arbitrary: ob work) (auto simp: buildStep_def Let_def split: prod.splits)

lemma output_of_run:
  assumes "runTasks cfg raw cache0 evs = Inr s" "c \<noteq> ''__proto__''"
  shows "outputFile (persist s) c =
     (if c \<in> normalizeName ` fst ` set raw then Some (emitted (worklist raw) c (trace s)) else None)"
  using runTasks_out [OF assms(1), of c] assms(2) by (simp add: persist_def outGet_def)

lemma output_file:
  assumes "runTasks cfg raw cache0 evs = Inr s"
  shows "outputFile (persist s) c =
     (if c \<noteq> ''__proto__'' \<and> c \<in> normalizeName ` fst ` set raw
      then Some (emitted (worklist raw) c (trace s)) else None)"
proof (cases "c = ''__proto__''")
  case True
  from replayed_fields(2) [OF runTasks_replayed [OF assms]]
  have "own (out s) ''__proto__'' = None"
    by (simp add: init_def build_def own_proto_build emptyOut_def)
  with True show ?thesis by (simp add: persist_def)
next
  case False
  with output_of_run [OF assms False] show ?thesis by simp
qed



lemma main_not_thrown: "main cfg input cached evs \<noteq> Inl TypeError"
proof -
  have "runTasks cfg (loadJSON input []) (loadJSON cached Map.empty) evs \<noteq> Inl TypeError"
    unfolding runTasks_eq using sound_init by (rule exec_not_thrown)
  then show ?thesis
    by (auto simp: main_def Let_def split: sum.splits)
qed

lemma pushOr_appended:
  assumes "outGet c' ob = Some xs"
  shows "outGet c (pushOr c' e ob) = (if c = c' then Some (xs @ [e]) else outGet c ob)"
  using assms by (simp add: outGet_pushOr)

subsection \<open>What the providers found is what the tasks stored\<close>














section \<open>The claims\<close>

subsection \<open>C1: the delay after a call of the unkeyed provider\<close>

text \<open>
  C1 says that on the path without a key every provider call, also one that fails, is
  followed by the delay of 1100 ms before the next call, so that \<open>N\<close> calls take at
  least \<open>1100 * (N - 1)\<close> ms. In the script \<open>await sleep(1100)\<close> stands after the call
  inside the \<open>try\<close> block, so a call that throws skips it: for the catalog
  \<open>{"Germany": ["Berlin"]}\<close>, no key, an empty cache and a provider that fails twice,
  the run makes its two calls with no \<open>sleep\<close> between them and none after them.
\<close>

theorem failed_calls_skip_the_delay:
  "(case runTasks \<lparr>MAPTILER_KEY = []\<rparr> [(''Germany'', Some [''Berlin''])] Map.empty
           [Start, Reply 0 Failed, Reply 0 Failed] of
      Inl x \<Rightarrow> None
    | Inr s \<Rightarrow> Some (trace s, allCalls (trace s), enforcedDelay (trace s), allDone s)) =
   Some ([(0, Call (Nominatim ''Berlin, Germany'')), (0, Ret Failed),
          (0, Call (Nominatim ''Berlin'')), (0, Ret Failed), (0, Miss)],
         [Nominatim ''Berlin, Germany'', Nominatim ''Berlin''], 0, True)"
  by (simp add: run_defs name_defs allCalls_def enforcedDelay_def allDone_def
        List.map_filter_simps)

subsection \<open>C2: the work list\<close>

text \<open>
  C2 says that the work list holds one work item per pair of normalized country and
  normalized city, so that \<open>Berlin (virtual)\<close> and \<open>Berlin\<close> of one country appear
  once. The loop pushes one item per city of the input and removes nothing: the two
  cities give two equal work items.
\<close>

theorem worklist_keeps_duplicates:
  "worklist [(''Germany'', Some [''Berlin'', ''Berlin (virtual)''])] =
     [\<lparr>country = ''Germany'', city = ''Berlin'', k = ''Germany::Berlin''\<rparr>,
      \<lparr>country = ''Germany'', city = ''Berlin'', k = ''Germany::Berlin''\<rparr>]"
  by (simp add: worklist_def build_def buildStep_def pushCities_def key_def name_defs Let_def)

subsection \<open>C3: the keys of the loaded cache\<close>

text \<open>
  C3 says, among other things, that the hit counter equals the number of loaded keys
  that occur in the work list. The work list can hold a key twice (C2): without a key
  and with an empty cache, the second \<open>Berlin\<close> of Germany finds the record that the
  first one has just stored, and the run ends with one hit though no key was loaded.
\<close>

theorem later_duplicate_is_a_hit:
  "(case runTasks \<lparr>MAPTILER_KEY = []\<rparr> [(''Germany'', Some [''Berlin'', ''Berlin (virtual)''])]
           (Map.empty :: int cachemap)
           [Start, Reply 0 (Found \<lparr>lat = 5252, lng = 1340, provider = ''nominatim''\<rparr>),
            Wake 0, Start] of
      Inl x \<Rightarrow> None | Inr s \<Rightarrow> Some (allDone s, hits s)) = Some (True, 1)
   \<and> card (set (map k (worklist [(''Germany'', Some [''Berlin'', ''Berlin (virtual)''])]))
            \<inter> dom (Map.empty :: int cachemap)) = 0"
  by (simp add: run_defs name_defs allDone_def coordOf_def)

text \<open>
  C3 as amended. At every moment of a run (the state after any events): a record of the
  loaded cache is still in the cache, unchanged; a task whose key was loaded has made
  no provider call, and once it has returned its log is the cache hit with the loaded
  record; \<open>hits\<close> counts the logged cache hits. When the keys of the work list are
  pairwise different and every task has returned, \<open>hits\<close> is the number of loaded
  keys that occur in the work list.
\<close>

theorem loaded_keys_are_cache_hits:
  assumes "runTasks cfg raw cache0 evs = Inr s"
  shows "(\<forall>key' cv. cache0 key' = Some cv \<longrightarrow> cache s key' = Some cv)
       \<and> (\<forall>i < length (worklist raw). \<forall>cv. cache0 (k (worklist raw ! i)) = Some cv \<longrightarrow>
            calls i (trace s) = [] \<and> (tasks s ! i = Done \<longrightarrow> tlog i (trace s) = [Hit cv]))
       \<and> hits s = length (filter (\<lambda>e. \<exists>cv. snd e = Hit cv) (trace s))
       \<and> (distinct (map k (worklist raw)) \<and> allDone s \<longrightarrow>
            hits s = card (set (map k (worklist raw)) \<inter> dom cache0))"
proof -
  from runTasks_preloaded [OF assms] have pl: "preloaded (worklist raw) cache0 s" .
  then have a: "\<forall>key' cv. cache0 key' = Some cv \<longrightarrow> cache s key' = Some cv"
    by (simp add: preloaded_def)
  have b: "calls i (trace s) = [] \<and> (tasks s ! i = Done \<longrightarrow> tlog i (trace s) = [Hit cv])"
    if "i < length (worklist raw)" "cache0 (k (worklist raw ! i)) = Some cv" for i cv
  proof -
    from pl that have "(tasks s ! i = Queued \<and> tlog i (trace s) = []) \<or>
         (tasks s ! i = Done \<and> tlog i (trace s) = [Hit cv])"
      by (simp add: preloaded_def)
    then show ?thesis
      by (auto simp: calls_def List.map_filter_simps)
  qed
  have c: "hits s = length (filter (\<lambda>e. \<exists>cv. snd e = Hit cv) (trace s))"
    using assms by (rule runTasks_hits)
  have d: "hits s = card (set (map k (worklist raw)) \<inter> dom cache0)"
    if "distinct (map k (worklist raw))" "allDone s"
  proof -
    from runTasks_hitcount [OF assms that(1)]
    have "hitcount (worklist raw) cache0 s" "shape (worklist raw) s" by simp_all
    with allDone_started [OF this(2) that(2)] card_loaded_keys [OF that(1), of cache0]
    show ?thesis by (simp add: hitcount_def)
  qed
  from a b c d show ?thesis by blast
qed

theorem loaded_keys_are_cache_hits_witness:
  "\<exists>s. runTasks \<lparr>MAPTILER_KEY = ''K''\<rparr> [(''Germany'', Some [''Berlin'', ''Bonn''])]
          [''Germany::Berlin'' \<mapsto> \<lparr>lat = 5252 :: int, lng = 1340\<rparr>]
          [Start, Start, Reply 1 Absent, Reply 1 Failed] = Inr s
     \<and> distinct (map k (worklist [(''Germany'', Some [''Berlin'', ''Bonn''])]))
     \<and> allDone s
     \<and> cache s ''Germany::Berlin'' = Some \<lparr>lat = 5252, lng = 1340\<rparr>
     \<and> calls 0 (trace s) = []
     \<and> tlog 0 (trace s) = [Hit \<lparr>lat = 5252, lng = 1340\<rparr>]
     \<and> hits s = 1
     \<and> card (set (map k (worklist [(''Germany'', Some [''Berlin'', ''Bonn''])]))
            \<inter> dom [''Germany::Berlin'' \<mapsto> \<lparr>lat = 5252 :: int, lng = 1340\<rparr>]) = 1"
proof -
  let ?raw = "[(''Germany'', Some [''Berlin'', ''Bonn''])]"
  let ?c0 = "[''Germany::Berlin'' \<mapsto> \<lparr>lat = 5252 :: int, lng = 1340\<rparr>]"
  let ?run = "runTasks \<lparr>MAPTILER_KEY = ''K''\<rparr> ?raw ?c0 [Start, Start, Reply 1 Absent, Reply 1 Failed]"
  define s where "s = projr ?run"
  have run: "?run = Inr s"
    unfolding s_def by (simp add: run_defs name_defs)
  have w: "worklist ?raw =
      [\<lparr>country = ''Germany'', city = ''Berlin'', k = ''Germany::Berlin''\<rparr>,
       \<lparr>country = ''Germany'', city = ''Bonn'', k = ''Germany::Bonn''\<rparr>]"
    by (simp add: worklist_def run_defs name_defs)
  have d: "allDone s" and h: "hits s = 1" and t: "tasks s ! 0 = Done"
    unfolding s_def by (simp_all add: run_defs name_defs allDone_def ISO_HINT_def)
  from w have dk: "distinct (map k (worklist ?raw))" by simp
  from loaded_keys_are_cache_hits [OF run] d dk
  have 1: "\<forall>key' cv. ?c0 key' = Some cv \<longrightarrow> cache s key' = Some cv"
    and 2: "\<forall>i < length (worklist ?raw). \<forall>cv. ?c0 (k (worklist ?raw ! i)) = Some cv \<longrightarrow>
            calls i (trace s) = [] \<and> (tasks s ! i = Done \<longrightarrow> tlog i (trace s) = [Hit cv])"
    and 3: "hits s = card (set (map k (worklist ?raw)) \<inter> dom ?c0)"
    by blast+
  from 1 have "cache s ''Germany::Berlin'' = Some \<lparr>lat = 5252, lng = 1340\<rparr>" by simp
  moreover from 2 w t have "calls 0 (trace s) = []" "tlog 0 (trace s) = [Hit \<lparr>lat = 5252, lng = 1340\<rparr>]"
    by simp_all
  moreover from 3 h have "card (set (map k (worklist ?raw)) \<inter> dom ?c0) = 1" by simp
  ultimately show ?thesis using run dk d h by blast
qed

subsection \<open>C4: the key of a place\<close>

lemma key_cancel_left: "key c y1 = key c y2 \<Longrightarrow> y1 = y2"
  by (simp add: key_def)

lemma key_cancel_right: "key c1 y = key c2 y \<Longrightarrow> c1 = c2"
  by (simp add: key_def)

lemma key_country:
  assumes "key c1 y1 = key c2 y2" "CHR '':'' \<notin> set c1" "CHR '':'' \<notin> set c2"
  shows "c1 = c2"
proof -
  have "takeWhile (\<lambda>x. x \<noteq> CHR '':'') (key c1 y1) = c1"
    unfolding key_def using assms(2) by (rule takeWhile_sep)
  moreover have "takeWhile (\<lambda>x. x \<noteq> CHR '':'') (key c2 y2) = c2"
    unfolding key_def using assms(3) by (rule takeWhile_sep)
  ultimately show ?thesis using assms(1) by simp
qed

lemma key_city:
  assumes "key c1 y1 = key c2 y2" "CHR '':'' \<notin> set y1" "CHR '':'' \<notin> set y2"
  shows "y1 = y2"
proof -
  have r: "\<And>c y. rev (key c y) = rev y @ ''::'' @ rev c" by (simp add: key_def)
  have "takeWhile (\<lambda>x. x \<noteq> CHR '':'') (rev (key c1 y1)) = rev y1"
    unfolding r using assms(2) by (intro takeWhile_sep) simp
  moreover have "takeWhile (\<lambda>x. x \<noteq> CHR '':'') (rev (key c2 y2)) = rev y2"
    unfolding r using assms(3) by (intro takeWhile_sep) simp
  ultimately have "rev y1 = rev y2" using assms(1) by simp
  then show ?thesis by simp
qed

text \<open>
  C4 says that two different pairs of normalized country and city never have the same
  key. The key is the plain concatenation \<open>country::city\<close>, so a colon at the end of a
  country or at the start of a city moves the border: the pairs \<open>("x::", "y")\<close> and
  \<open>("x", "::y")\<close>, both unchanged by the normalization, share the key \<open>x::::y\<close>.
\<close>

theorem key_collision:
  "(''x::'', ''y'') \<noteq> (''x'', ''::y'')
   \<and> normalizeName ''x::'' = ''x::'' \<and> normalizeName ''y'' = ''y''
   \<and> normalizeName ''x'' = ''x'' \<and> normalizeName ''::y'' = ''::y''
   \<and> key ''x::'' ''y'' = key ''x'' ''::y''"
  by (simp add: key_def name_defs)

text \<open>
  C4 as amended: two different pairs have different keys when neither country holds a
  colon, and also when neither city holds a colon.
\<close>

theorem key_injective_without_colon:
  assumes "(cA, yA) \<noteq> (cB, yB)"
    and "(CHR '':'' \<notin> set cA \<and> CHR '':'' \<notin> set cB) \<or> (CHR '':'' \<notin> set yA \<and> CHR '':'' \<notin> set yB)"
  shows "key cA yA \<noteq> key cB yB"
proof
  assume e: "key cA yA = key cB yB"
  from assms(2) show False
  proof
    assume "CHR '':'' \<notin> set cA \<and> CHR '':'' \<notin> set cB"
    then have "cA = cB" using key_country [OF e] by simp
    with e have "yA = yB" using key_cancel_left by simp
    with \<open>cA = cB\<close> assms(1) show False by simp
  next
    assume "CHR '':'' \<notin> set yA \<and> CHR '':'' \<notin> set yB"
    then have "yA = yB" using key_city [OF e] by simp
    with e have "cA = cB" using key_cancel_right by simp
    with \<open>yA = yB\<close> assms(1) show False by simp
  qed
qed

theorem key_injective_without_colon_witness:
  "(''Germany'', ''Berlin'') \<noteq> (''Germany'', ''Bonn'')
   \<and> CHR '':'' \<notin> set ''Germany''
   \<and> key ''Germany'' ''Berlin'' \<noteq> key ''Germany'' ''Bonn''"
  using key_injective_without_colon [of "''Germany''" "''Berlin''" "''Germany''" "''Bonn''"]
  by simp

subsection \<open>C5: the fallback query\<close>




subsection \<open>C6: a city that no query resolves\<close>




subsection \<open>C7: provider errors\<close>




subsection \<open>C8: loading the files\<close>

text \<open>
  C8: a file that cannot be read and a file that is not JSON both give the fallback of
  \<open>loadJSON\<close>. Without the input file the catalog is empty: the run has no task, is
  over at once and writes the loaded cache and an empty output. Without a readable
  cache file the run is the run with an empty cache. In no case does the script throw.
\<close>

theorem load_is_never_fatal:
  "loadJSON Unreadable fallback = fallback
   \<and> loadJSON Malformed fallback = fallback
   \<and> main cfg Unreadable cached [] = Inr \<lparr>cacheFile = loadJSON cached Map.empty, outputFile = Map.empty\<rparr>
   \<and> main cfg Malformed cached [] = Inr \<lparr>cacheFile = loadJSON cached Map.empty, outputFile = Map.empty\<rparr>
   \<and> main cfg input Unreadable evs = main cfg input (Parsed Map.empty) evs
   \<and> main cfg input Malformed evs = main cfg input (Parsed Map.empty) evs
   \<and> main cfg input Unreadable evs \<noteq> Inl TypeError
   \<and> main cfg input Malformed evs \<noteq> Inl TypeError"
  by (simp add: main_not_thrown)
     (simp add: loadJSON_def main_def runTasks_def build_def init_def allDone_def persist_def emptyOut_def)

subsection \<open>C9: a city with an empty name\<close>

text \<open>
  C9 says that a city whose normalized name is empty is left out of the work list and
  triggers no provider call. The loop has no such test: the city \<open>" (virtual)"\<close> of
  Germany gives the work item with the empty city and the key \<open>Germany::\<close>, and its
  task, started with an empty cache, calls the provider with the query \<open>", Germany"\<close>.
\<close>

theorem empty_city_is_queried:
  "normalizeName '' (virtual)'' = []
   \<and> worklist [(''Germany'', Some ['' (virtual)''])] =
       [\<lparr>country = ''Germany'', city = [], k = ''Germany::''\<rparr>]
   \<and> (case runTasks \<lparr>MAPTILER_KEY = []\<rparr> [(''Germany'', Some ['' (virtual)''])]
              (Map.empty :: int cachemap) [Start] of
         Inl x \<Rightarrow> None | Inr s \<Rightarrow> Some (allCalls (trace s))) =
       Some [Nominatim '', Germany'']"
  by (simp add: worklist_def run_defs name_defs allCalls_def List.map_filter_simps)

text \<open>
  C9 as amended: a city whose normalized name is empty stays in the work list, as the
  work item with the empty city and the key \<open>country::\<close>; its task, when the key is not
  in the cache, starts with the provider call for the query \<open>", country"\<close>; and its
  country, normalized, has its array in \<open>out\<close> and is a key of the output file (unless
  it is \<open>__proto__\<close>, which is never an own property of \<open>out\<close>).
\<close>

theorem empty_city_stays_in_worklist:
  assumes "(cr, Some cs) \<in> set raw" and "cityRaw \<in> set cs" and "normalizeName cityRaw = []"
  shows "\<lparr>country = normalizeName cr, city = [], k = normalizeName cr @ ''::''\<rparr> \<in> set (worklist raw)
       \<and> (\<forall>cfg i (s :: 'n state). cache s (normalizeName cr @ ''::'') = None \<longrightarrow>
            taskStart cfg \<lparr>country = normalizeName cr, city = [], k = normalizeName cr @ ''::''\<rparr> i s =
              Inr (s\<lparr>tasks := (tasks s)[i := AwaitPrimary],
                     trace := trace s @ [(i, Call (primaryRequest cfg
                        \<lparr>country = normalizeName cr, city = [], k = normalizeName cr @ ''::''\<rparr>))]\<rparr>)
            \<and> query (primaryRequest cfg
                 \<lparr>country = normalizeName cr, city = [], k = normalizeName cr @ ''::''\<rparr>) =
                '', '' @ normalizeName cr)
       \<and> (\<forall>cfg (cache0 :: 'n cachemap) evs s. runTasks cfg raw cache0 evs = Inr s \<longrightarrow>
            outGet (normalizeName cr) (out s) \<noteq> None \<and>
            (normalizeName cr \<noteq> ''__proto__'' \<longrightarrow> outputFile (persist s) (normalizeName cr) \<noteq> None))"
proof -
  from worklist_member [OF assms(1,2)] assms(3)
  have a: "\<lparr>country = normalizeName cr, city = [], k = normalizeName cr @ ''::''\<rparr> \<in> set (worklist raw)"
    by (simp add: key_def)
  have b: "\<forall>cfg i (s :: 'n state). cache s (normalizeName cr @ ''::'') = None \<longrightarrow>
            taskStart cfg \<lparr>country = normalizeName cr, city = [], k = normalizeName cr @ ''::''\<rparr> i s =
              Inr (s\<lparr>tasks := (tasks s)[i := AwaitPrimary],
                     trace := trace s @ [(i, Call (primaryRequest cfg
                        \<lparr>country = normalizeName cr, city = [], k = normalizeName cr @ ''::''\<rparr>))]\<rparr>)
            \<and> query (primaryRequest cfg
                 \<lparr>country = normalizeName cr, city = [], k = normalizeName cr @ ''::''\<rparr>) =
                '', '' @ normalizeName cr"
    by (simp add: taskStart_def primaryRequest_def)
  from assms(1) have "normalizeName (fst (cr, Some cs)) \<in> normalizeName ` fst ` set raw"
    by (intro imageI)
  then have m: "normalizeName cr \<in> normalizeName ` fst ` set raw" by simp
  have c: "\<forall>cfg (cache0 :: 'n cachemap) evs s. runTasks cfg raw cache0 evs = Inr s \<longrightarrow>
            outGet (normalizeName cr) (out s) \<noteq> None \<and>
            (normalizeName cr \<noteq> ''__proto__'' \<longrightarrow> outputFile (persist s) (normalizeName cr) \<noteq> None)"
  proof (intro allI impI conjI)
    fix cfg and cache0 :: "'n cachemap" and evs s
    assume h: "runTasks cfg raw cache0 evs = Inr s"
    from runTasks_out [OF h, of "normalizeName cr"] m
    show "outGet (normalizeName cr) (out s) \<noteq> None" by simp
    assume "normalizeName cr \<noteq> ''__proto__''"
    with output_file [OF h, of "normalizeName cr"] m
    show "outputFile (persist s) (normalizeName cr) \<noteq> None" by simp
  qed
  from a b c show ?thesis by blast
qed

theorem empty_city_stays_in_worklist_witness:
  "(''Germany'', Some ['' (virtual)'']) \<in> set [(''Germany'', Some ['' (virtual)''])]
   \<and> normalizeName '' (virtual)'' = []
   \<and> \<lparr>country = ''Germany'', city = [], k = ''Germany::''\<rparr>
        \<in> set (worklist [(''Germany'', Some ['' (virtual)''])])
   \<and> (\<exists>s. runTasks \<lparr>MAPTILER_KEY = []\<rparr> [(''Germany'', Some ['' (virtual)''])]
              (Map.empty :: int cachemap) [Start, Reply 0 Failed, Reply 0 Failed] = Inr s
          \<and> outputFile (persist s) ''Germany'' \<noteq> None)"
proof -
  let ?raw = "[(''Germany'', Some ['' (virtual)''])]"
  let ?run = "runTasks \<lparr>MAPTILER_KEY = []\<rparr> ?raw (Map.empty :: int cachemap)
          [Start, Reply 0 Failed, Reply 0 Failed]"
  define s where "s = projr ?run"
  have run: "?run = Inr s"
    unfolding s_def by (simp add: run_defs name_defs)
  have n: "normalizeName '' (virtual)'' = []" "normalizeName ''Germany'' = ''Germany''"
    by (simp_all add: name_defs)
  from empty_city_stays_in_worklist [where ?'n = int, of "''Germany''" "['' (virtual)'']" ?raw "'' (virtual)''"] n
  have i: "\<lparr>country = ''Germany'', city = [], k = ''Germany::''\<rparr> \<in> set (worklist ?raw)"
    and o: "\<forall>cfg (cache0 :: int cachemap) evs s. runTasks cfg ?raw cache0 evs = Inr s \<longrightarrow>
            outputFile (persist s) ''Germany'' \<noteq> None"
    by simp_all
  from o run have "outputFile (persist s) ''Germany'' \<noteq> None" by blast
  note this i
  with n run show ?thesis by auto
qed

subsection \<open>C10: the coordinates of the output and of the cache\<close>

text \<open>
  C10 says, at its end, that when the run is over every entry of the output has the
  coordinates that the persisted cache holds under its key. With a key the queue runs
  six tasks at a time, and the work list can hold a key twice (C2): both tasks of
  \<open>Berlin\<close> miss the empty cache and call the provider; when the first call of task 0
  fails and its fallback finds another place than the first call of task 1, task 1
  appends its entry, then task 0 overwrites the cache record and appends its own. The
  first entry of the output differs from the cache.
\<close>

theorem racing_duplicates_disagree:
  "(case runTasks \<lparr>MAPTILER_KEY = ''K''\<rparr> [(''Germany'', Some [''Berlin'', ''Berlin (virtual)''])]
           (Map.empty :: int cachemap)
           [Start, Start, Reply 0 Failed,
            Reply 1 (Found \<lparr>lat = 5252, lng = 1340, provider = ''maptiler''\<rparr>),
            Reply 0 (Found \<lparr>lat = 4447, lng = - 7118, provider = ''maptiler''\<rparr>)] of
      Inl x \<Rightarrow> None
    | Inr s \<Rightarrow> Some (allDone s, cacheFile (persist s) ''Germany::Berlin'',
                      outputFile (persist s) ''Germany'')) =
   Some (True, Some \<lparr>lat = 4447, lng = - 7118\<rparr>,
         Some [\<lparr>lat = 5252, lng = 1340, name = ''Berlin''\<rparr>,
               \<lparr>lat = 4447, lng = - 7118, name = ''Berlin''\<rparr>])"
  by (simp add: run_defs name_defs allDone_def persist_def coordOf_def ISO_HINT_def)

text \<open>
  C10 as amended. Every step of a run that changes an array of the output appends one
  entry to it, the entry of a work item with the coordinates that the cache holds
  under the key of that work item after the step. And when the run has no key (the
  tasks run one at a time) or the keys of the work list are pairwise different, every
  entry of the written output belongs to a work item of its country under whose key
  the written cache holds the coordinates of the entry.
\<close>

theorem output_entries_come_from_cache:
  assumes "runTasks cfg raw cache0 evs = Inr s"
  shows "(\<forall>e s'. step cfg (worklist raw) e s = Inr s' \<longrightarrow>
            (\<forall>c. outGet c (out s') = outGet c (out s) \<or>
                 (\<exists>i cv xs. i < length (worklist raw) \<and> country (worklist raw ! i) = c \<and>
                    outGet c (out s) = Some xs \<and>
                    outGet c (out s') = Some (xs @ [entry (city (worklist raw ! i)) cv]) \<and>
                    cache s' (k (worklist raw ! i)) = Some cv)))
       \<and> ((\<not> keyed cfg \<or> distinct (map k (worklist raw))) \<longrightarrow>
            (\<forall>c xs e. outputFile (persist s) c = Some xs \<and> e \<in> set xs \<longrightarrow>
               (\<exists>i < length (worklist raw). country (worklist raw ! i) = c \<and>
                  name e = city (worklist raw ! i) \<and>
                  cacheFile (persist s) (k (worklist raw ! i)) = Some \<lparr>lat = lat e, lng = lng e\<rparr>)))"
proof -
  let ?work = "worklist raw"
  have a: "outGet c (out s') = outGet c (out s) \<or>
                 (\<exists>i cv xs. i < length ?work \<and> country (?work ! i) = c \<and>
                    outGet c (out s) = Some xs \<and>
                    outGet c (out s') = Some (xs @ [entry (city (?work ! i)) cv]) \<and>
                    cache s' (k (?work ! i)) = Some cv)"
    if st: "step cfg ?work e s = Inr s'" for e s' c
  proof -
    from st obtain i p x as p' where
      r: "resumed ?work e s = (i, p, x)" and i: "i < length ?work"
      and l: "local cfg (?work ! i) p x = Some (as, p')"
      and s': "s' = after ?work i as p' (if e = Start then started s + 1 else started s) s"
      and al: "pushes as \<Longrightarrow> outGet (country (?work ! i)) (out s) \<noteq> None"
      by (rule step_summary) blast
    from l show ?thesis
    proof (cases rule: local_kinds)
      case (hit cv)
      from r hit have c: "cache s (k (?work ! i)) = Some cv"
        by (cases rule: resumed_cases) auto
      from hit al obtain xs where xs: "outGet (country (?work ! i)) (out s) = Some xs" by auto
      from hit have "cache s' = cache s"
        "out s' = pushOr (country (?work ! i)) (entry (city (?work ! i)) cv) (out s)"
        unfolding s' by simp_all
      with c xs i pushOr_appended [OF xs, of c] show ?thesis by auto
    next
      case (store cv pre)
      then have "pushes as" by (simp add: pushes_def)
      with al obtain xs where xs: "outGet (country (?work ! i)) (out s) = Some xs" by auto
      from store have "cache s' = (cache s)(k (?work ! i) \<mapsto> cv)"
        "out s' = pushOr (country (?work ! i)) (entry (city (?work ! i)) cv) (out s)"
        unfolding s' by (simp_all add: quiet_fold)
      with xs i pushOr_appended [OF xs, of c] show ?thesis by auto
    next
      case quiet
      then have "out s' = out s" unfolding s' by (simp add: quiet_fold)
      then show ?thesis by simp
    qed
  qed
  have b: "\<exists>i < length ?work. country (?work ! i) = c \<and> name e = city (?work ! i) \<and>
                  cacheFile (persist s) (k (?work ! i)) = Some \<lparr>lat = lat e, lng = lng e\<rparr>"
    if q: "\<not> keyed cfg \<or> distinct (map k ?work)"
      and o: "outputFile (persist s) c = Some xs \<and> e \<in> set xs" for c xs e
  proof -
    from o output_file [OF assms, of c] have "c \<noteq> ''__proto__''" by (auto split: if_splits)
    with o have g: "outGet c (out s) = Some xs \<and> e \<in> set xs"
      by (simp add: persist_def outGet_def)
    from runTasks_agrees [OF assms q]
    have "\<forall>c xs e. outGet c (out s) = Some xs \<and> e \<in> set xs \<longrightarrow>
        (\<exists>i < length ?work. country (?work ! i) = c \<and> name e = city (?work ! i) \<and>
           cache s (k (?work ! i)) = Some \<lparr>lat = lat e, lng = lng e\<rparr>)"
      by (simp add: agrees_def)
    with g have "\<exists>i < length ?work. country (?work ! i) = c \<and> name e = city (?work ! i) \<and>
           cache s (k (?work ! i)) = Some \<lparr>lat = lat e, lng = lng e\<rparr>"
      by blast
    then show ?thesis by (simp add: persist_def)
  qed
  from a b show ?thesis by blast
qed

theorem output_entries_come_from_cache_witness:
  "\<exists>s. runTasks \<lparr>MAPTILER_KEY = []\<rparr> [(''Germany'', Some [''Berlin'', ''Berlin (virtual)''])]
          (Map.empty :: int cachemap)
          [Start, Reply 0 (Found \<lparr>lat = 5252, lng = 1340, provider = ''nominatim''\<rparr>),
           Wake 0, Start] = Inr s
     \<and> \<not> keyed \<lparr>MAPTILER_KEY = []\<rparr>
     \<and> outputFile (persist s) ''Germany'' =
         Some [\<lparr>lat = 5252, lng = 1340, name = ''Berlin''\<rparr>, \<lparr>lat = 5252, lng = 1340, name = ''Berlin''\<rparr>]
     \<and> (\<exists>i < 2. cacheFile (persist s)
            (k (worklist [(''Germany'', Some [''Berlin'', ''Berlin (virtual)''])] ! i)) =
          Some \<lparr>lat = 5252, lng = 1340\<rparr>)"
proof -
  let ?raw = "[(''Germany'', Some [''Berlin'', ''Berlin (virtual)''])]"
  let ?run = "runTasks \<lparr>MAPTILER_KEY = []\<rparr> ?raw (Map.empty :: int cachemap)
          [Start, Reply 0 (Found \<lparr>lat = 5252, lng = 1340, provider = ''nominatim''\<rparr>), Wake 0, Start]"
  define s where "s = projr ?run"
  have run: "?run = Inr s"
    unfolding s_def by (simp add: run_defs name_defs)
  have w: "length (worklist ?raw) = 2"
    by (simp add: worklist_def run_defs name_defs)
  have nk: "\<not> keyed \<lparr>MAPTILER_KEY = []\<rparr>" by (simp add: keyed_def)
  have o: "outputFile (persist s) ''Germany'' =
         Some [\<lparr>lat = 5252, lng = 1340, name = ''Berlin''\<rparr>, \<lparr>lat = 5252, lng = 1340, name = ''Berlin''\<rparr>]"
    unfolding s_def by (simp add: run_defs name_defs persist_def coordOf_def)
  from output_entries_come_from_cache [OF run] nk
  have "\<forall>c xs e. outputFile (persist s) c = Some xs \<and> e \<in> set xs \<longrightarrow>
               (\<exists>i < length (worklist ?raw). country (worklist ?raw ! i) = c \<and>
                  name e = city (worklist ?raw ! i) \<and>
                  cacheFile (persist s) (k (worklist ?raw ! i)) = Some \<lparr>lat = lat e, lng = lng e\<rparr>)"
    by blast
  from this [rule_format, of "''Germany''" _ "\<lparr>lat = 5252, lng = 1340, name = ''Berlin''\<rparr>"] o w
  have "\<exists>i < 2. cacheFile (persist s) (k (worklist ?raw ! i)) = Some \<lparr>lat = 5252, lng = 1340\<rparr>"
    by auto
  with run nk o show ?thesis by blast
qed

end
